theory Spec2Isabelle
  imports Main
begin

section \<open>Data model of the task execution engine\<close>

text \<open>
  The engine lives in the sidebar component: \<^verbatim>\<open>executeSequence\<close> walks the task list
  and \<^verbatim>\<open>executeTask\<close> is the per-type handler. The task types are the ones of the
  \<^verbatim>\<open>switch\<close> in \<^verbatim>\<open>executeTask\<close> (the extract action is spelled \<^verbatim>\<open>'extract-dom'\<close>
  there); \<open>Unknown\<close> stands for any other string, which reaches the \<^verbatim>\<open>default\<close> branch.
\<close>

datatype TaskType =
  Search | Find | Click | ExtractDom | Type | Enter | Scroll | Wait | Loop | Unknown string

datatype TaskStatus = Pending | Running | Completed | Failed

text \<open>
  \<^verbatim>\<open>task.config\<close>: every field is optional. Numbers are the integers a count or an
  amount is configured with. \<open>configText\<close> is \<^verbatim>\<open>config.text\<close>.
\<close>

record TaskConfig =
  searchQuery :: "string option"
  configText :: "string option"
  selector :: "string option"
  clickSelector :: "string option"
  typeText :: "string option"
  targetField :: "string option"
  scrollAmount :: "int option"
  waitTime :: "int option"
  loopCount :: "int option"

text \<open>The objects the two auto-click scripts return: \<^verbatim>\<open>{success, url}\<close> and
  \<^verbatim>\<open>{success, element, text}\<close>.\<close>

datatype ClickResult = ClickedLink string | ClickedElement string string

datatype ItemType = Link | Heading

record ExtractedItem =
  title :: string
  url :: "string option"
  itemType :: ItemType

text \<open>
  The execution context: the object threaded from one task to the next, with the keys
  the handlers produce. An absent key is \<open>None\<close>; the empty object \<^verbatim>\<open>{}\<close> has every key
  absent.
\<close>

record Context =
  lastSearchQuery :: "string option"
  lastFoundText :: "string option"
  clickedElement :: "ClickResult option"
  typedText :: "string option"
  extractedData :: "ExtractedItem list option"

definition emptyContext :: Context where
  "emptyContext = \<lparr>lastSearchQuery = None, lastFoundText = None, clickedElement = None,
     typedText = None, extractedData = None\<rparr>"

fun orElse :: "'a option \<Rightarrow> 'a option \<Rightarrow> 'a option" where
  "orElse (Some x) _ = Some x"
| "orElse None y = y"

text \<open>The object spread \<^verbatim>\<open>{ ...a, ...b }\<close>: the keys of \<open>b\<close> overwrite those of \<open>a\<close>.\<close>

definition spread :: "Context \<Rightarrow> Context \<Rightarrow> Context" where
  "spread a b = \<lparr>lastSearchQuery = orElse (lastSearchQuery b) (lastSearchQuery a),
     lastFoundText = orElse (lastFoundText b) (lastFoundText a),
     clickedElement = orElse (clickedElement b) (clickedElement a),
     typedText = orElse (typedText b) (typedText a),
     extractedData = orElse (extractedData b) (extractedData a)\<rparr>"

record Task =
  taskId :: string
  taskType :: TaskType
  config :: TaskConfig
  status :: TaskStatus
  result :: "Context option"
  error :: "string option"

text \<open>
  What a handler can throw: the four configuration errors of \<^verbatim>\<open>executeTask\<close>, the
  \<^verbatim>\<open>default\<close> branch, and the rejection of an injected script that throws.
\<close>

datatype HandlerError =
    SearchQueryRequired
  | TextToFindRequired
  | NoClickTarget
  | TextToTypeRequired
  | UnknownTaskType string
  | ScriptError string

fun message :: "HandlerError \<Rightarrow> string" where
  "message SearchQueryRequired = ''Search query is required''"
| "message TextToFindRequired = ''Text to find is required''"
| "message NoClickTarget =
     ''No click target specified and no context from previous Find/Search''"
| "message TextToTypeRequired = ''Text to type is required''"
| "message (UnknownTaskType t) = ''Unknown task type: '' @ t"
| "message (ScriptError m) = m"

text \<open>
  The log is a list of lines; each constructor is one of the template strings passed to
  \<^verbatim>\<open>addLog\<close>, with the values interpolated into it.
\<close>

datatype LogLine =
    LogAnalysisWarnings
  | LogSuggestion string
  | LogStarting
  | LogWillLoop int
  | LogRestart int int
  | LogExecuting nat TaskType
  | LogTaskCompleted nat
  | LogTaskFailed nat string
  | LogAllExecuted
  | LogUsingPreviousFind string
  | LogSearchingFor string
  | LogFoundAndScrolled string
  | LogMayNotBeVisible string
  | LogAutoClickFirstLink
  | LogClickedUrl string
  | LogAutoTargeting string
  | LogClickedElement string string
  | LogAutoClickFailed string
  | LogExtracted nat
  | LogTyping string "string option"
  | LogTypedInto string string
  | LogPressingEnter
  | LogEnterPressed
  | LogScrolling int
  | LogWaiting int
  | LogLoopTask

record ExecutionStatus =
  isExecuting :: bool
  isPaused :: bool
  currentTaskIndex :: int
  totalTasks :: nat
  currentLoop :: "int option"
  totalLoops :: "int option"
  statusExtractedData :: "ExtractedItem list option"
  logs :: "LogLine list"

text \<open>
  The part of the page that the extraction script reads: the anchors and the
  \<^verbatim>\<open>h1, h2, h3\<close> headings, in document order.
\<close>

record Anchor =
  href :: string
  anchorText :: string
  anchorVisible :: bool

record Document =
  anchors :: "Anchor list"
  headings :: "string list"

text \<open>
  The page-view control surface, over a page state \<open>'w\<close> that the engine never inspects.
  \<^verbatim>\<open>executeJavaScript\<close> is given one field per injected script, typed by what that
  script returns. A script may reject (\<open>Inl\<close> the message) when it contains a
  \<^verbatim>\<open>throw\<close>, and when a text of the task or of the context is pasted into its source:
  the scroll script of the find handler holds the text to find in a double-quoted
  literal with only the quotes escaped, so a text that ends in a backslash or holds a
  line break leaves a script that does not parse. \<open>loadURL\<close> takes the search query
  whose result page is loaded.
\<close>

record 'w WebViewRef =
  loadURL :: "string \<Rightarrow> 'w \<Rightarrow> 'w"
  findInPage :: "string \<Rightarrow> 'w \<Rightarrow> 'w"
  stopFindInPage :: "string \<Rightarrow> 'w \<Rightarrow> 'w"
  document :: "'w \<Rightarrow> Document"
  outlineBody :: "'w \<Rightarrow> 'w"
  clearHighlights :: "'w \<Rightarrow> 'w"
  scrollToMatch :: "string \<Rightarrow> 'w \<Rightarrow> (string + bool) \<times> 'w"
  clickFirstLink :: "'w \<Rightarrow> (string + string) \<times> 'w"
  clickFoundText :: "string \<Rightarrow> 'w \<Rightarrow> (string + string \<times> string) \<times> 'w"
  clickBySelector :: "string \<Rightarrow> 'w \<Rightarrow> string option \<times> 'w"
  typeInto :: "string \<Rightarrow> string \<Rightarrow> string \<Rightarrow> 'w \<Rightarrow> (string + string \<times> string) \<times> 'w"
  pressEnter :: "'w \<Rightarrow> string option \<times> 'w"
  scrollBy :: "int \<Rightarrow> 'w \<Rightarrow> 'w"

text \<open>
  What the run leaves behind, for the properties that speak of it: the start of a pass,
  an evaluation of the pause condition with the value read, and a call of
  \<^verbatim>\<open>executeTask\<close> with the pass, the index, the task and the context passed.
\<close>

datatype Event =
    PassStarted int
  | Polled bool
  | Dispatched int nat Task Context

text \<open>
  The state the engine reads and writes: the store (task list, execution status with its
  log), the page behind the page view, the alerts shown, and the record of events.
  \<open>pauseButton\<close> is the environment: the value the pause button has left in the
  store's \<^verbatim>\<open>isPaused\<close> by the time of each coming evaluation of the pause condition;
  after the last entry the button is not touched again. \<open>statusInPlace\<close> is a parameter
  of the store, which is not among the sources: whether \<^verbatim>\<open>setExecutionStatus\<close> writes
  into the status record it holds, or puts a new record in its place.
\<close>

record 'w EngineState =
  tasks :: "Task list"
  executionStatus :: ExecutionStatus
  page :: 'w
  alerts :: "string list"
  pauseButton :: "bool list"
  events :: "Event list"
  statusInPlace :: bool

section \<open>The store\<close>

text \<open>
  Modelled from the spec: the task store (\<^verbatim>\<open>useTaskStore\<close>) is not among the sources.
  \<^verbatim>\<open>setExecutionStatus\<close> merges the given fields into the status record,
  \<^verbatim>\<open>updateTask\<close> merges the given fields into the task with the given id,
  \<^verbatim>\<open>addLog\<close> appends a line to the log and \<^verbatim>\<open>clearLogs\<close> empties it.
\<close>

definition setExecutionStatus ::
  "(ExecutionStatus \<Rightarrow> ExecutionStatus) \<Rightarrow> 'w EngineState \<Rightarrow> 'w EngineState" where
  "setExecutionStatus upd s = s\<lparr>executionStatus := upd (executionStatus s)\<rparr>"

definition updateTask :: "string \<Rightarrow> (Task \<Rightarrow> Task) \<Rightarrow> 'w EngineState \<Rightarrow> 'w EngineState" where
  "updateTask tid upd s = s\<lparr>tasks := map (\<lambda>t. if taskId t = tid then upd t else t) (tasks s)\<rparr>"

definition addLog :: "LogLine \<Rightarrow> 'w EngineState \<Rightarrow> 'w EngineState" where
  "addLog l s = setExecutionStatus (\<lambda>e. e\<lparr>logs := logs e @ [l]\<rparr>) s"

definition clearLogs :: "'w EngineState \<Rightarrow> 'w EngineState" where
  "clearLogs s = setExecutionStatus (\<lambda>e. e\<lparr>logs := []\<rparr>) s"

definition alert :: "string \<Rightarrow> 'w EngineState \<Rightarrow> 'w EngineState" where
  "alert m s = s\<lparr>alerts := alerts s @ [m]\<rparr>"

definition record_event :: "Event \<Rightarrow> 'w EngineState \<Rightarrow> 'w EngineState" where
  "record_event e s = s\<lparr>events := events s @ [e]\<rparr>"

text \<open>A call on the page view that returns nothing, and one that returns a value.\<close>

definition onPage :: "('w \<Rightarrow> 'w) \<Rightarrow> 'w EngineState \<Rightarrow> 'w EngineState" where
  "onPage f s = s\<lparr>page := f (page s)\<rparr>"

definition askPage :: "('w \<Rightarrow> 'a \<times> 'w) \<Rightarrow> 'w EngineState \<Rightarrow> 'a \<times> 'w EngineState" where
  "askPage f s = (fst (f (page s)), s\<lparr>page := snd (f (page s))\<rparr>)"

section \<open>JavaScript values\<close>

text \<open>A string is truthy when it is set and not empty; \<^verbatim>\<open>n || d\<close> on a number takes the
  default when \<open>n\<close> is unset or zero.\<close>

fun truthy :: "string option \<Rightarrow> string option" where
  "truthy None = None"
| "truthy (Some s) = (if s = [] then None else Some s)"

fun numberOr :: "int option \<Rightarrow> int \<Rightarrow> int" where
  "numberOr None d = d"
| "numberOr (Some n) d = (if n = 0 then d else n)"

text \<open>
  \<^verbatim>\<open>String.prototype.trim\<close>, on strings whose characters are the code units below 256:
  of the white space and line terminators that it strips, those are the tab, the line
  feed, the vertical tab, the form feed, the carriage return, the space and the
  no-break space.
\<close>

definition isSpace :: "char \<Rightarrow> bool" where
  "isSpace c =
     (c \<in> set [CHR '' '', CHR 0x09, CHR 0x0A, CHR 0x0B, CHR 0x0C, CHR 0x0D, CHR 0xA0])"

definition trim :: "string \<Rightarrow> string" where
  "trim s = rev (dropWhile isSpace (rev (dropWhile isSpace s)))"

section \<open>The extraction script\<close>

text \<open>
  The script injected by the \<^verbatim>\<open>'extract-dom'\<close> handler: the anchors with a link
  target, a non-blank text and a layout parent, cut to the first ten, then the first
  five headings.
\<close>

definition linkItem :: "Anchor \<Rightarrow> ExtractedItem" where
  "linkItem a = \<lparr>title = trim (anchorText a), url = Some (href a), itemType = Link\<rparr>"

definition headingItem :: "string \<Rightarrow> ExtractedItem" where
  "headingItem h = \<lparr>title = trim h, url = None, itemType = Heading\<rparr>"

definition extractLinks :: "Document \<Rightarrow> Anchor list" where
  "extractLinks d =
     take 10 (filter (\<lambda>a. href a \<noteq> [] \<and> trim (anchorText a) \<noteq> [] \<and> anchorVisible a) (anchors d))"

definition extractScript :: "Document \<Rightarrow> ExtractedItem list" where
  "extractScript d = map linkItem (extractLinks d) @ map headingItem (take 5 (headings d))"

section \<open>The per-type handler\<close>

text \<open>
  \<^verbatim>\<open>executeTask(task, webview, context)\<close> returns the context update or throws. The
  waits are left out. Lines 401 to 407 of the find case, which settle the text to find,
  are \<open>resolveTextToFind\<close>.
\<close>

definition resolveTextToFind ::
  "Task \<Rightarrow> Context \<Rightarrow> 'w EngineState \<Rightarrow> string option \<times> 'w EngineState" where
  "resolveTextToFind task context s =
     (let textToFind = orElse (truthy (configText (config task))) (truthy (selector (config task)))
      in case (textToFind, truthy (lastFoundText context)) of
           (None, Some found) \<Rightarrow> (Some found, addLog (LogUsingPreviousFind found) s)
         | _ \<Rightarrow> (textToFind, s))"

definition executeFind ::
  "'w WebViewRef \<Rightarrow> Task \<Rightarrow> Context \<Rightarrow> 'w EngineState \<Rightarrow> (HandlerError + Context) \<times> 'w EngineState" where
  "executeFind webview task context s =
     (let s1 = onPage (stopFindInPage webview ''clearSelection'') s;
          s2 = onPage (clearHighlights webview) s1;
          (textToFind, s3) = resolveTextToFind task context s2
      in case textToFind of
           None \<Rightarrow> (Inl TextToFindRequired, s3)
         | Some t \<Rightarrow>
             (let s4 = addLog (LogSearchingFor t) s3;
                  s5 = onPage (findInPage webview t) s4
              in case askPage (scrollToMatch webview t) s5 of
                   (Inl m, s6) \<Rightarrow> (Inl (ScriptError m), s6)
                 | (Inr found, s6) \<Rightarrow>
                     (Inr (emptyContext\<lparr>lastFoundText := Some t\<rparr>),
                      addLog (if found then LogFoundAndScrolled t else LogMayNotBeVisible t)
                        s6)))"

definition executeClick ::
  "'w WebViewRef \<Rightarrow> Task \<Rightarrow> Context \<Rightarrow> 'w EngineState \<Rightarrow> (HandlerError + Context) \<times> 'w EngineState" where
  "executeClick webview task context s =
     (case (truthy (clickSelector (config task)), truthy (lastFoundText context),
            truthy (lastSearchQuery context)) of
        (None, None, Some q) \<Rightarrow>
          (let s1 = addLog LogAutoClickFirstLink s;
               s2 = onPage (stopFindInPage webview ''clearSelection'') s1
           in case askPage (clickFirstLink webview) s2 of
                (Inl m, s3) \<Rightarrow> (Inl (ScriptError m), s3)
              | (Inr u, s3) \<Rightarrow>
                  (Inr (context\<lparr>clickedElement := Some (ClickedLink u)\<rparr>),
                   addLog (LogClickedUrl u) s3))
      | (None, Some found, _) \<Rightarrow>
          (let s1 = addLog (LogAutoTargeting found) s;
               s2 = onPage (stopFindInPage webview ''activateSelection'') s1
           in case askPage (clickFoundText webview found) s2 of
                (Inl m, s3) \<Rightarrow> (Inl (ScriptError m), addLog (LogAutoClickFailed m) s3)
              | (Inr (el, tx), s3) \<Rightarrow>
                  (Inr (context\<lparr>clickedElement := Some (ClickedElement el tx)\<rparr>),
                   addLog (LogClickedElement el tx) s3))
      | (Some clickTarget, _, _) \<Rightarrow>
          (case askPage (clickBySelector webview clickTarget) s of
             (Some m, s1) \<Rightarrow> (Inl (ScriptError m), s1)
           | (None, s1) \<Rightarrow> (Inr context, s1))
      | (None, None, None) \<Rightarrow> (Inl NoClickTarget, s))"

definition executeTask ::
  "'w WebViewRef \<Rightarrow> Task \<Rightarrow> Context \<Rightarrow> 'w EngineState \<Rightarrow> (HandlerError + Context) \<times> 'w EngineState" where
  "executeTask webview task context s =
     (case taskType task of
        Search \<Rightarrow>
          (case truthy (searchQuery (config task)) of
             None \<Rightarrow> (Inl SearchQueryRequired, s)
           | Some q \<Rightarrow>
               (Inr (emptyContext\<lparr>lastSearchQuery := Some q\<rparr>),
                onPage (loadURL webview q) (onPage (outlineBody webview) s)))
      | Find \<Rightarrow> executeFind webview task context s
      | Click \<Rightarrow> executeClick webview task context s
      | ExtractDom \<Rightarrow>
          (let extracted = extractScript (document webview (page s));
               s1 = addLog (LogExtracted (length extracted)) s;
               s2 = setExecutionStatus (\<lambda>e. e\<lparr>statusExtractedData := Some extracted\<rparr>) s1
           in (Inr (context\<lparr>extractedData := Some extracted\<rparr>), s2))
      | Type \<Rightarrow>
          (case truthy (typeText (config task)) of
             None \<Rightarrow> (Inl TextToTypeRequired, s)
           | Some t \<Rightarrow>
               (let field = truthy (targetField (config task));
                    s1 = addLog (LogTyping t field) s
                in case askPage (typeInto webview (case field of None \<Rightarrow> [] | Some f \<Rightarrow> f)
                          (case truthy (lastFoundText context) of None \<Rightarrow> [] | Some f \<Rightarrow> f) t) s1 of
                     (Inl m, s2) \<Rightarrow> (Inl (ScriptError m), s2)
                   | (Inr (inputType, inputName), s2) \<Rightarrow>
                       (Inr (context\<lparr>typedText := Some t\<rparr>),
                        addLog (LogTypedInto inputName inputType) s2)))
      | Enter \<Rightarrow>
          (case askPage (pressEnter webview) (addLog LogPressingEnter s) of
             (Some m, s1) \<Rightarrow> (Inl (ScriptError m), s1)
           | (None, s1) \<Rightarrow> (Inr context, addLog LogEnterPressed s1))
      | Scroll \<Rightarrow>
          (let amount = numberOr (scrollAmount (config task)) 500;
               s1 = addLog (LogScrolling amount) s
           in (Inr context, onPage (scrollBy webview amount) s1))
      | Wait \<Rightarrow>
          (Inr context, addLog (LogWaiting (numberOr (waitTime (config task)) 1000)) s)
      | Loop \<Rightarrow> (Inr context, addLog LogLoopTask s)
      | Unknown t \<Rightarrow> (Inl (UnknownTaskType t), s))"

section \<open>The sequence runner\<close>

text \<open>
  \<^verbatim>\<open>executionStatus\<close> in the component is a constant: the status record that the store
  handed out at the render in which \<^verbatim>\<open>executeSequence\<close> was created. What a later read of
  that constant shows depends on the store: the store's record as it is now when the
  store writes in place, the record as it was rendered otherwise.
\<close>

definition seenStatus :: "ExecutionStatus \<Rightarrow> 'w EngineState \<Rightarrow> ExecutionStatus" where
  "seenStatus rendered s = (if statusInPlace s then executionStatus s else rendered)"

text \<open>
  The pause check at the head of the inner loop: \<^verbatim>\<open>while (executionStatus.isPaused)\<close>
  with a wait in its body. Before each evaluation of the condition the pause button has
  left its value in the store; the condition reads the rendered constant. When the
  button is not touched any more and the condition still holds, the loop does not end:
  the answer is \<open>False\<close> and the run is \<open>Suspended\<close>.
\<close>

fun whilePaused ::
  "ExecutionStatus \<Rightarrow> bool list \<Rightarrow> 'w EngineState \<Rightarrow> bool \<times> 'w EngineState" where
  "whilePaused rendered [] s =
     (\<not> isPaused (seenStatus rendered s),
      record_event (Polled (isPaused (seenStatus rendered s))) s)"
| "whilePaused rendered (b # bs) s =
     (let s1 = setExecutionStatus (\<lambda>e. e\<lparr>isPaused := b\<rparr>) (s\<lparr>pauseButton := bs\<rparr>);
          s2 = record_event (Polled (isPaused (seenStatus rendered s1))) s1
      in if isPaused (seenStatus rendered s1) then whilePaused rendered bs s2 else (True, s2))"

datatype Outcome =
    NotStarted
  | Finished
  | HandlerFailed int nat HandlerError
  | Suspended

text \<open>
  The three blocks of the inner loop's body that write to the store: before the handler
  is called (lines 313 to 315), after it returned (lines 327 and 328) and after it threw
  (lines 331 to 333).
\<close>

definition startTask :: "nat \<Rightarrow> Task \<Rightarrow> 'w EngineState \<Rightarrow> 'w EngineState" where
  "startTask i task s =
     (let s1 = updateTask (taskId task) (\<lambda>t. t\<lparr>status := Running\<rparr>) s;
          s2 = setExecutionStatus (\<lambda>e. e\<lparr>currentTaskIndex := int i\<rparr>) s1
      in addLog (LogExecuting (i + 1) (taskType task)) s2)"

definition completeTask :: "nat \<Rightarrow> Task \<Rightarrow> Context \<Rightarrow> 'w EngineState \<Rightarrow> 'w EngineState" where
  "completeTask i task res s =
     (let s1 = updateTask (taskId task) (\<lambda>t. t\<lparr>status := Completed, result := Some res\<rparr>) s
      in addLog (LogTaskCompleted (i + 1)) s1)"

definition failTask :: "nat \<Rightarrow> Task \<Rightarrow> HandlerError \<Rightarrow> 'w EngineState \<Rightarrow> 'w EngineState" where
  "failTask i task err s =
     (let s1 = updateTask (taskId task)
                 (\<lambda>t. t\<lparr>status := Failed, error := Some (message err)\<rparr>) s;
          s2 = addLog (LogTaskFailed (i + 1) (message err)) s1
      in setExecutionStatus (\<lambda>e. e\<lparr>isExecuting := False, isPaused := False\<rparr>) s2)"

text \<open>
  The inner loop, \<^verbatim>\<open>for (let i = 0; i < tasksToExecute.length; i++)\<close>, from index \<open>i\<close>
  on: the tasks still to run are the argument list. \<open>Finished\<close> is the end of the pass.
  A handler that returns always returns an object, so its result is always merged into
  the context.
\<close>

fun runTasks ::
  "'w WebViewRef \<Rightarrow> ExecutionStatus \<Rightarrow> int \<Rightarrow> nat \<Rightarrow> Task list \<Rightarrow> Context
     \<Rightarrow> 'w EngineState \<Rightarrow> Outcome \<times> 'w EngineState" where
  "runTasks webview rendered loop i [] executionContext s = (Finished, s)"
| "runTasks webview rendered loop i (task # rest) executionContext s =
     (case whilePaused rendered (pauseButton s) s of
        (False, s0) \<Rightarrow> (Suspended, s0)
      | (True, s0) \<Rightarrow>
          (let s1 = record_event (Dispatched loop i task executionContext) (startTask i task s0)
           in case executeTask webview task executionContext s1 of
                (Inr res, s2) \<Rightarrow>
                  runTasks webview rendered loop (i + 1) rest (spread executionContext res)
                    (completeTask i task res s2)
              | (Inl err, s2) \<Rightarrow> (HandlerFailed loop i err, failTask i task err s2)))"

text \<open>The head of the outer loop's body (lines 293 to 296), where a pass starts.\<close>

definition startPass :: "bool \<Rightarrow> int \<Rightarrow> int \<Rightarrow> 'w EngineState \<Rightarrow> 'w EngineState" where
  "startPass hasLoop count loop s =
     record_event (PassStarted loop)
       (if hasLoop \<and> loop > 0
        then setExecutionStatus (\<lambda>e. e\<lparr>currentLoop := Some (loop + 1)\<rparr>)
               (addLog (LogRestart (loop + 1) count) s)
        else s)"

text \<open>
  The outer loop, \<^verbatim>\<open>for (let loop = 0; loop < loopCount; loop++)\<close>, from \<open>loop\<close> on. Each
  pass starts from the empty context.
\<close>

function runLoops ::
  "'w WebViewRef \<Rightarrow> ExecutionStatus \<Rightarrow> bool \<Rightarrow> int \<Rightarrow> Task list \<Rightarrow> int
     \<Rightarrow> 'w EngineState \<Rightarrow> Outcome \<times> 'w EngineState" where
  "runLoops webview rendered hasLoop count tasksToExecute loop s =
     (if loop < count then
        (case runTasks webview rendered loop 0 tasksToExecute emptyContext
                (startPass hasLoop count loop s) of
           (Finished, s1) \<Rightarrow>
             runLoops webview rendered hasLoop count tasksToExecute (loop + 1) s1
         | (r, s1) \<Rightarrow> (r, s1))
      else (Finished, s))"
  by pat_completeness auto
termination
  by (relation "measure (\<lambda>(webview, rendered, hasLoop, count, tasksToExecute, loop, s).
        nat (count - loop))")
     auto

declare runLoops.simps [simp del]

text \<open>
  \<^verbatim>\<open>analyzeTaskSequence\<close> (the task optimizer) is not among the sources; it is a
  parameter, and so is the page view the component was given (\<open>None\<close> when
  \<^verbatim>\<open>webviewRef?.current\<close> is missing). The rendered status is the store's record when
  the run is started, before the run writes to it.
\<close>

record Analysis =
  isOptimal :: bool
  suggestions :: "string list"

text \<open>
  The three constants at the head of \<^verbatim>\<open>executeSequence\<close>: \<^verbatim>\<open>hasLoop\<close> (the last task is
  a loop task), \<^verbatim>\<open>loopCount\<close> (\<^verbatim>\<open>lastTask.config.loopCount || 1\<close>, or 1 without a
  trailing loop) and \<^verbatim>\<open>tasksToExecute\<close> (\<^verbatim>\<open>tasks.slice(0, -1)\<close>, or all tasks).
\<close>

definition hasLoop :: "Task list \<Rightarrow> bool" where
  "hasLoop ts = (case ts of [] \<Rightarrow> False | _ \<Rightarrow> taskType (last ts) = Loop)"

definition loopCountOf :: "Task list \<Rightarrow> int" where
  "loopCountOf ts = (if hasLoop ts then numberOr (loopCount (config (last ts))) 1 else 1)"

definition tasksToExecute :: "Task list \<Rightarrow> Task list" where
  "tasksToExecute ts = (if hasLoop ts then butlast ts else ts)"

text \<open>
  What \<^verbatim>\<open>executeSequence\<close> writes before the first pass (lines 270 to 289: the analysis
  warnings, the initial status, the cleared log and its first lines) and after the last
  (lines 347 and 348).
\<close>

definition beginRun :: "(Task list \<Rightarrow> Analysis) \<Rightarrow> 'w EngineState \<Rightarrow> 'w EngineState" where
  "beginRun analyzeTaskSequence s =
     (let analysis = analyzeTaskSequence (tasks s);
          s1 = (if \<not> isOptimal analysis
                then foldl (\<lambda>s' x. addLog (LogSuggestion x) s')
                       (addLog LogAnalysisWarnings s) (suggestions analysis)
                else s);
          s2 = setExecutionStatus
                 (\<lambda>e. e\<lparr>isExecuting := True, isPaused := False, currentTaskIndex := 0,
                       totalTasks := length (tasks s),
                       totalLoops := (if hasLoop (tasks s) then Some (loopCountOf (tasks s))
                                      else None)\<rparr>) s1;
          s3 = addLog LogStarting (clearLogs s2)
      in if hasLoop (tasks s) then addLog (LogWillLoop (loopCountOf (tasks s))) s3 else s3)"

definition endRun :: "'w EngineState \<Rightarrow> 'w EngineState" where
  "endRun s =
     setExecutionStatus
       (\<lambda>e. e\<lparr>isExecuting := False, isPaused := False, currentTaskIndex := - 1,
             currentLoop := None\<rparr>)
       (addLog LogAllExecuted s)"

definition executeSequence ::
  "(Task list \<Rightarrow> Analysis) \<Rightarrow> 'w WebViewRef option \<Rightarrow> 'w EngineState
     \<Rightarrow> Outcome \<times> 'w EngineState" where
  "executeSequence analyzeTaskSequence webviewRef s =
     (if length (tasks s) = 0 then (NotStarted, alert ''No tasks to execute'' s)
      else case webviewRef of
        None \<Rightarrow> (NotStarted, alert ''Webview not available'' s)
      | Some webview \<Rightarrow>
          (case runLoops webview (executionStatus s) (hasLoop (tasks s)) (loopCountOf (tasks s))
                  (tasksToExecute (tasks s)) 0 (beginRun analyzeTaskSequence s) of
             (Finished, s1) \<Rightarrow> (Finished, endRun s1)
           | (r, s1) \<Rightarrow> (r, s1)))"

section \<open>Reading the record of events\<close>

text \<open>The handler calls of a run, in order: pass, index and task.\<close>

fun dispatches :: "Event list \<Rightarrow> (int \<times> nat \<times> Task) list" where
  "dispatches [] = []"
| "dispatches (Dispatched l i t c # es) = (l, i, t) # dispatches es"
| "dispatches (PassStarted l # es) = dispatches es"
| "dispatches (Polled b # es) = dispatches es"

text \<open>The passes of a run, in order.\<close>

fun passes :: "Event list \<Rightarrow> int list" where
  "passes [] = []"
| "passes (PassStarted l # es) = l # passes es"
| "passes (Dispatched l i t c # es) = passes es"
| "passes (Polled b # es) = passes es"

text \<open>The contexts that the first task of a pass was called with.\<close>

fun firstContexts :: "Event list \<Rightarrow> Context list" where
  "firstContexts [] = []"
| "firstContexts (Dispatched l i t c # es) =
     (if i = 0 then c # firstContexts es else firstContexts es)"
| "firstContexts (PassStarted l # es) = firstContexts es"
| "firstContexts (Polled b # es) = firstContexts es"

text \<open>What one pass over \<open>ts\<close> dispatches when every handler returns.\<close>

definition passDispatches :: "Task list \<Rightarrow> int \<Rightarrow> (int \<times> nat \<times> Task) list" where
  "passDispatches ts l = map (\<lambda>i. (l, i, ts ! i)) [0..<length ts]"

text \<open>
  The shape of the events of one pass from index \<open>i\<close> on, and of the passes from
  \<open>l\<close> on: polls that end with one that reads \<open>False\<close> before each handler call, and
  nothing after a handler that threw or a poll that never reads \<open>False\<close>.
\<close>

inductive passTrace ::
  "int \<Rightarrow> nat \<Rightarrow> Task list \<Rightarrow> Context \<Rightarrow> Outcome \<Rightarrow> Event list \<Rightarrow> bool" where
  finished: "passTrace l i [] ctx Finished []"
| suspended: "ps \<noteq> [] \<Longrightarrow> last ps \<Longrightarrow> passTrace l i (t # rest) ctx Suspended (map Polled ps)"
| threw: "ps \<noteq> [] \<Longrightarrow> \<not> last ps \<Longrightarrow>
    passTrace l i (t # rest) ctx (HandlerFailed l i err) (map Polled ps @ [Dispatched l i t ctx])"
| returned: "ps \<noteq> [] \<Longrightarrow> \<not> last ps \<Longrightarrow> passTrace l (Suc i) rest ctx' r evs \<Longrightarrow>
    passTrace l i (t # rest) ctx r (map Polled ps @ Dispatched l i t ctx # evs)"

inductive runTrace :: "int \<Rightarrow> Task list \<Rightarrow> int \<Rightarrow> Outcome \<Rightarrow> Event list \<Rightarrow> bool" where
  over: "\<not> l < n \<Longrightarrow> runTrace n ts l Finished []"
| again: "l < n \<Longrightarrow> passTrace l 0 ts emptyContext Finished evs \<Longrightarrow>
    runTrace n ts (l + 1) r evs' \<Longrightarrow> runTrace n ts l r (PassStarted l # evs @ evs')"
| stopped: "l < n \<Longrightarrow> passTrace l 0 ts emptyContext r evs \<Longrightarrow> r \<noteq> Finished \<Longrightarrow>
    runTrace n ts l r (PassStarted l # evs)"

text \<open>What a handler leaves alone.\<close>

definition untouched :: "'w EngineState \<Rightarrow> 'w EngineState \<Rightarrow> bool" where
  "untouched s s' =
     (tasks s' = tasks s \<and> alerts s' = alerts s \<and> pauseButton s' = pauseButton s
      \<and> events s' = events s
      \<and> isExecuting (executionStatus s') = isExecuting (executionStatus s)
      \<and> isPaused (executionStatus s') = isPaused (executionStatus s)
      \<and> currentTaskIndex (executionStatus s') = currentTaskIndex (executionStatus s)
      \<and> totalTasks (executionStatus s') = totalTasks (executionStatus s)
      \<and> currentLoop (executionStatus s') = currentLoop (executionStatus s)
      \<and> totalLoops (executionStatus s') = totalLoops (executionStatus s))"

section \<open>A page view and a store to run the engine on\<close>

text \<open>
  A page whose state counts the clicks made on it: the element behind a selector is
  there until the first click navigates away. Its scroll script does not parse for a
  text that ends in a backslash or holds a line feed.
\<close>

definition clickAwayView :: "nat WebViewRef" where
  "clickAwayView =
     \<lparr>loadURL = (\<lambda>q w. w), findInPage = (\<lambda>t w. w), stopFindInPage = (\<lambda>a w. w),
      document = (\<lambda>w. \<lparr>anchors = [], headings = []\<rparr>),
      outlineBody = (\<lambda>w. w), clearHighlights = (\<lambda>w. w),
      scrollToMatch = (\<lambda>t w.
        (if (t \<noteq> [] \<and> last t = CHR 0x5C) \<or> CHR 0x0A \<in> set t
         then Inl ''SyntaxError: Invalid or unexpected token'' else Inr True, w)),
      clickFirstLink = (\<lambda>w. (Inr ''https://example.org/'', Suc w)),
      clickFoundText = (\<lambda>t w. (Inr (''A'', t), Suc w)),
      clickBySelector = (\<lambda>sel w. (if w = 0 then None else Some ''Element not found'', Suc w)),
      typeInto = (\<lambda>f t x w. (Inr (''INPUT'', ''q''), w)),
      pressEnter = (\<lambda>w. (None, w)),
      scrollBy = (\<lambda>n w. w)\<rparr>"

definition noConfig :: TaskConfig where
  "noConfig = \<lparr>searchQuery = None, configText = None, selector = None, clickSelector = None,
     typeText = None, targetField = None, scrollAmount = None, waitTime = None,
     loopCount = None\<rparr>"

text \<open>A task as \<^verbatim>\<open>handleDrop\<close> creates it, with a configuration.\<close>

definition newTask :: "string \<Rightarrow> TaskType \<Rightarrow> TaskConfig \<Rightarrow> Task" where
  "newTask tid ty c =
     \<lparr>taskId = tid, taskType = ty, config = c, status = Pending, result = None, error = None\<rparr>"

definition idleStatus :: ExecutionStatus where
  "idleStatus = \<lparr>isExecuting = False, isPaused = False, currentTaskIndex = - 1, totalTasks = 0,
     currentLoop = None, totalLoops = None, statusExtractedData = None, logs = []\<rparr>"

text \<open>
  A store in which nothing has run yet, with the pause button's coming values; it puts a
  new status record in place on every write.
\<close>

definition freshState :: "Task list \<Rightarrow> bool list \<Rightarrow> nat EngineState" where
  "freshState ts clicks =
     \<lparr>tasks = ts, executionStatus = idleStatus, page = 0, alerts = [], pauseButton = clicks,
      events = [], statusInPlace = False\<rparr>"

definition noWarnings :: "Task list \<Rightarrow> Analysis" where
  "noWarnings ts = \<lparr>isOptimal = True, suggestions = []\<rparr>"


definition twoPassTasks :: "Task list" where
  "twoPassTasks = [newTask ''t1'' Wait noConfig, newTask ''t2'' Scroll noConfig,
     newTask ''t3'' Loop (noConfig\<lparr>loopCount := Some 2\<rparr>)]"

definition onePassTasks :: "Task list" where
  "onePassTasks = [newTask ''t1'' Wait noConfig, newTask ''t2'' Scroll noConfig]"

definition failingTasks :: "Task list" where
  "failingTasks = [newTask ''t1'' Search noConfig,
     newTask ''t2'' Loop (noConfig\<lparr>loopCount := Some 2\<rparr>)]"



definition negativeLoopTasks :: "Task list" where
  "negativeLoopTasks = [newTask ''t1'' Wait noConfig,
     newTask ''t2'' Loop (noConfig\<lparr>loopCount := Some (- 3)\<rparr>)]"

definition loopFirstTasks :: "Task list" where
  "loopFirstTasks = [newTask ''t1'' Loop noConfig, newTask ''t2'' Wait noConfig]"

definition clickNextTasks :: "Task list" where
  "clickNextTasks = [newTask ''t1'' Click (noConfig\<lparr>clickSelector := Some ''#next''\<rparr>),
     newTask ''t2'' Wait noConfig, newTask ''t3'' Loop (noConfig\<lparr>loopCount := Some 2\<rparr>)]"

text \<open>
  Find tasks: with a selector alone, with an empty text before the selector, with
  nothing but empty strings, and with a text that ends in a backslash.
\<close>

definition backslashText :: string where
  "backslashText = ''C:'' @ [CHR 0x5C]"

definition findBySelector :: Task where
  "findBySelector = newTask ''t1'' Find (noConfig\<lparr>selector := Some ''Contact''\<rparr>)"

definition findEmptyText :: Task where
  "findEmptyText =
     newTask ''t1'' Find (noConfig\<lparr>configText := Some [], selector := Some ''Contact''\<rparr>)"

definition findNothing :: Task where
  "findNothing = newTask ''t1'' Find (noConfig\<lparr>configText := Some [], selector := Some []\<rparr>)"

definition findBackslash :: Task where
  "findBackslash = newTask ''t1'' Find (noConfig\<lparr>configText := Some backslashText\<rparr>)"

section \<open>The store operations, field by field\<close>

lemma setExecutionStatus_sel [simp]:
  "tasks (setExecutionStatus f s) = tasks s"
  "executionStatus (setExecutionStatus f s) = f (executionStatus s)"
  "page (setExecutionStatus f s) = page s"
  "alerts (setExecutionStatus f s) = alerts s"
  "pauseButton (setExecutionStatus f s) = pauseButton s"
  "events (setExecutionStatus f s) = events s"
  by (simp_all add: setExecutionStatus_def)

lemma updateTask_sel [simp]:
  "tasks (updateTask tid f s) = map (\<lambda>t. if taskId t = tid then f t else t) (tasks s)"
  "executionStatus (updateTask tid f s) = executionStatus s"
  "page (updateTask tid f s) = page s"
  "alerts (updateTask tid f s) = alerts s"
  "pauseButton (updateTask tid f s) = pauseButton s"
  "events (updateTask tid f s) = events s"
  by (simp_all add: updateTask_def)

lemma addLog_sel [simp]:
  "tasks (addLog l s) = tasks s"
  "executionStatus (addLog l s) = (executionStatus s)\<lparr>logs := logs (executionStatus s) @ [l]\<rparr>"
  "page (addLog l s) = page s"
  "alerts (addLog l s) = alerts s"
  "pauseButton (addLog l s) = pauseButton s"
  "events (addLog l s) = events s"
  by (simp_all add: addLog_def)

lemma clearLogs_sel [simp]:
  "tasks (clearLogs s) = tasks s"
  "executionStatus (clearLogs s) = (executionStatus s)\<lparr>logs := []\<rparr>"
  "page (clearLogs s) = page s"
  "alerts (clearLogs s) = alerts s"
  "pauseButton (clearLogs s) = pauseButton s"
  "events (clearLogs s) = events s"
  by (simp_all add: clearLogs_def)

lemma alert_sel [simp]:
  "tasks (alert m s) = tasks s"
  "executionStatus (alert m s) = executionStatus s"
  "page (alert m s) = page s"
  "alerts (alert m s) = alerts s @ [m]"
  "pauseButton (alert m s) = pauseButton s"
  "events (alert m s) = events s"
  by (simp_all add: alert_def)

lemma record_event_sel [simp]:
  "tasks (record_event e s) = tasks s"
  "executionStatus (record_event e s) = executionStatus s"
  "page (record_event e s) = page s"
  "alerts (record_event e s) = alerts s"
  "pauseButton (record_event e s) = pauseButton s"
  "events (record_event e s) = events s @ [e]"
  by (simp_all add: record_event_def)

lemma onPage_sel [simp]:
  "tasks (onPage g s) = tasks s"
  "executionStatus (onPage g s) = executionStatus s"
  "page (onPage g s) = g (page s)"
  "alerts (onPage g s) = alerts s"
  "pauseButton (onPage g s) = pauseButton s"
  "events (onPage g s) = events s"
  by (simp_all add: onPage_def)

lemma startTask_sel [simp]:
  "tasks (startTask i task s) =
     map (\<lambda>t. if taskId t = taskId task then t\<lparr>status := Running\<rparr> else t) (tasks s)"
  "executionStatus (startTask i task s) =
     (executionStatus s)\<lparr>currentTaskIndex := int i,
        logs := logs (executionStatus s) @ [LogExecuting (i + 1) (taskType task)]\<rparr>"
  "page (startTask i task s) = page s"
  "alerts (startTask i task s) = alerts s"
  "pauseButton (startTask i task s) = pauseButton s"
  "events (startTask i task s) = events s"
  by (simp_all add: startTask_def)

lemma completeTask_sel [simp]:
  "tasks (completeTask i task res s) =
     map (\<lambda>t. if taskId t = taskId task then t\<lparr>status := Completed, result := Some res\<rparr> else t)
       (tasks s)"
  "executionStatus (completeTask i task res s) =
     (executionStatus s)\<lparr>logs := logs (executionStatus s) @ [LogTaskCompleted (i + 1)]\<rparr>"
  "page (completeTask i task res s) = page s"
  "alerts (completeTask i task res s) = alerts s"
  "pauseButton (completeTask i task res s) = pauseButton s"
  "events (completeTask i task res s) = events s"
  by (simp_all add: completeTask_def)

lemma failTask_sel [simp]:
  "tasks (failTask i task err s) =
     map (\<lambda>t. if taskId t = taskId task then t\<lparr>status := Failed, error := Some (message err)\<rparr>
               else t) (tasks s)"
  "executionStatus (failTask i task err s) =
     (executionStatus s)\<lparr>logs := logs (executionStatus s) @ [LogTaskFailed (i + 1) (message err)],
        isExecuting := False, isPaused := False\<rparr>"
  "page (failTask i task err s) = page s"
  "alerts (failTask i task err s) = alerts s"
  "pauseButton (failTask i task err s) = pauseButton s"
  "events (failTask i task err s) = events s"
  by (simp_all add: failTask_def)

section \<open>What the handlers leave alone\<close>

lemma executeFind_untouched: "untouched s (snd (executeFind webview task context s))"
  by (simp add: executeFind_def resolveTextToFind_def untouched_def askPage_def Let_def
      split: option.splits prod.splits sum.splits)

lemma executeClick_untouched: "untouched s (snd (executeClick webview task context s))"
  by (simp add: executeClick_def untouched_def askPage_def Let_def
      split: option.splits prod.splits sum.splits)

lemma executeTask_untouched: "untouched s (snd (executeTask webview task context s))"
proof (cases "taskType task")
  case Find
  then show ?thesis by (simp add: executeTask_def executeFind_untouched)
next
  case Click
  then show ?thesis by (simp add: executeTask_def executeClick_untouched)
qed (simp_all add: executeTask_def untouched_def askPage_def Let_def
      split: option.splits prod.splits sum.splits)

section \<open>The loops, step by step\<close>

lemma startPass_sel [simp]:
  "tasks (startPass h n l s) = tasks s"
  "page (startPass h n l s) = page s"
  "alerts (startPass h n l s) = alerts s"
  "pauseButton (startPass h n l s) = pauseButton s"
  "events (startPass h n l s) = events s @ [PassStarted l]"
  by (simp_all add: startPass_def)

text \<open>The pause check: what it reads, what it records, what it leaves alone.\<close>

lemma whilePaused_events:
  "whilePaused rendered bs s = (r, s') \<Longrightarrow>
     \<exists>ps. events s' = events s @ map Polled ps \<and> ps \<noteq> [] \<and> last ps = (\<not> r)"
proof (induction bs arbitrary: s)
  case Nil
  then show ?case by (auto intro: exI [of _ "[isPaused (seenStatus rendered s)]"])
next
  case (Cons b bs)
  define s1 where "s1 = setExecutionStatus (\<lambda>e. e\<lparr>isPaused := b\<rparr>) (s\<lparr>pauseButton := bs\<rparr>)"
  have s1: "events s1 = events s"
    by (simp add: s1_def)
  show ?case
  proof (cases "isPaused (seenStatus rendered s1)")
    case True
    with Cons.prems have "whilePaused rendered bs (record_event (Polled True) s1) = (r, s')"
      by (simp add: Let_def s1_def)
    from Cons.IH [OF this] s1 obtain ps where
      "events s' = (events s @ [Polled True]) @ map Polled ps" "ps \<noteq> []" "last ps = (\<not> r)"
      by auto
    then show ?thesis by (intro exI [of _ "True # ps"]) simp
  next
    case False
    with Cons.prems have "r" "s' = record_event (Polled False) s1"
      by (auto simp add: Let_def s1_def)
    with s1 show ?thesis by (intro exI [of _ "[False]"]) simp
  qed
qed

lemma whilePaused_frame:
  "whilePaused rendered bs s = (r, s') \<Longrightarrow>
     tasks s' = tasks s \<and> page s' = page s \<and> alerts s' = alerts s
     \<and> (\<exists>p. executionStatus s' = (executionStatus s)\<lparr>isPaused := p\<rparr>)"
proof (induction bs arbitrary: s)
  case Nil
  then show ?case by (auto intro: exI [of _ "isPaused (executionStatus s)"])
next
  case (Cons b bs)
  define s1 where "s1 = setExecutionStatus (\<lambda>e. e\<lparr>isPaused := b\<rparr>) (s\<lparr>pauseButton := bs\<rparr>)"
  have s1: "tasks s1 = tasks s" "page s1 = page s" "alerts s1 = alerts s"
    "executionStatus s1 = (executionStatus s)\<lparr>isPaused := b\<rparr>"
    by (simp_all add: s1_def)
  show ?case
  proof (cases "isPaused (seenStatus rendered s1)")
    case True
    with Cons.prems have "whilePaused rendered bs (record_event (Polled True) s1) = (r, s')"
      by (simp add: Let_def s1_def)
    from Cons.IH [OF this] s1 show ?thesis by auto
  next
    case False
    with Cons.prems have "s' = record_event (Polled False) s1"
      by (auto simp add: Let_def s1_def)
    with s1 show ?thesis by auto
  qed
qed

lemma runTasks_ConsE:
  assumes "runTasks webview rendered l i (t # rest) ctx s = (r, s')"
  obtains (suspended) "whilePaused rendered (pauseButton s) s = (False, s')" "r = Suspended"
  | (returned) s0 res s2 where "whilePaused rendered (pauseButton s) s = (True, s0)"
      "executeTask webview t ctx (record_event (Dispatched l i t ctx) (startTask i t s0)) = (Inr res, s2)"
      "runTasks webview rendered l (Suc i) rest (spread ctx res) (completeTask i t res s2) = (r, s')"
  | (threw) s0 err s2 where "whilePaused rendered (pauseButton s) s = (True, s0)"
      "executeTask webview t ctx (record_event (Dispatched l i t ctx) (startTask i t s0)) = (Inl err, s2)"
      "r = HandlerFailed l i err" "s' = failTask i t err s2"
  using assms by (auto simp add: Let_def split: prod.splits bool.splits sum.splits)

lemma runLoopsE:
  assumes "runLoops webview rendered h n ts l s = (r, s')"
  obtains (over) "\<not> l < n" "r = Finished" "s' = s"
  | (again) s1 where "l < n"
      "runTasks webview rendered l 0 ts emptyContext (startPass h n l s) = (Finished, s1)"
      "runLoops webview rendered h n ts (l + 1) s1 = (r, s')"
  | (stopped) "l < n" "runTasks webview rendered l 0 ts emptyContext (startPass h n l s) = (r, s')"
      "r \<noteq> Finished"
  using assms by (subst (asm) runLoops.simps) (auto split: if_splits prod.splits Outcome.splits)

lemma executeTask_events:
  "executeTask webview t ctx s = (r, s') \<Longrightarrow> events s' = events s"
  using executeTask_untouched [of s webview t ctx] by (simp add: untouched_def)

lemma runTasks_passTrace:
  "runTasks webview rendered l i rest ctx s = (r, s') \<Longrightarrow>
     \<exists>evs. events s' = events s @ evs \<and> passTrace l i rest ctx r evs"
proof (induction rest arbitrary: i ctx s)
  case Nil
  then show ?case by (auto intro: passTrace.finished)
next
  case (Cons t rest)
  from Cons.prems show ?case
  proof (cases rule: runTasks_ConsE)
    case suspended
    from whilePaused_events [OF suspended(1)] obtain ps where
      "events s' = events s @ map Polled ps" "ps \<noteq> []" "last ps"
      by auto
    with suspended(2) show ?thesis by (auto intro: passTrace.suspended)
  next
    case (returned s0 res s2)
    from whilePaused_events [OF returned(1)] obtain ps where
      ps: "events s0 = events s @ map Polled ps" "ps \<noteq> []" "\<not> last ps"
      by auto
    from Cons.IH [OF returned(3)] obtain evs where
      evs: "events s' = events (completeTask i t res s2) @ evs"
        "passTrace l (Suc i) rest (spread ctx res) r evs"
      by auto
    have "events s' = events s @ (map Polled ps @ Dispatched l i t ctx # evs)"
      using evs(1) ps(1) executeTask_events [OF returned(2)] by simp
    moreover have "passTrace l i (t # rest) ctx r (map Polled ps @ Dispatched l i t ctx # evs)"
      using ps(2,3) evs(2) by (rule passTrace.returned)
    ultimately show ?thesis by blast
  next
    case (threw s0 err s2)
    from whilePaused_events [OF threw(1)] obtain ps where
      ps: "events s0 = events s @ map Polled ps" "ps \<noteq> []" "\<not> last ps"
      by auto
    have "events s' = events s @ (map Polled ps @ [Dispatched l i t ctx])"
      using threw(4) ps(1) executeTask_events [OF threw(2)] by simp
    moreover have "passTrace l i (t # rest) ctx r (map Polled ps @ [Dispatched l i t ctx])"
      unfolding threw(3) using ps(2,3) by (rule passTrace.threw)
    ultimately show ?thesis by blast
  qed
qed

lemma runLoops_runTrace:
  "runLoops webview rendered h n ts l s = (r, s') \<Longrightarrow>
     \<exists>evs. events s' = events s @ evs \<and> runTrace n ts l r evs"
proof (induction webview rendered h n ts l s rule: runLoops.induct)
  case (1 webview rendered h n ts l s)
  from "1.prems" show ?case
  proof (cases rule: runLoopsE)
    case over
    then show ?thesis by (auto intro: runTrace.over)
  next
    case (again s1)
    from runTasks_passTrace [OF again(2)] obtain evs where
      evs: "events s1 = events s @ PassStarted l # evs" "passTrace l 0 ts emptyContext Finished evs"
      by auto
    from "1.IH" [OF again(1) again(2) [symmetric] refl again(3)] obtain evs' where
      evs': "events s' = events s1 @ evs'" "runTrace n ts (l + 1) r evs'"
      by auto
    have "events s' = events s @ (PassStarted l # evs @ evs')"
      using evs(1) evs'(1) by simp
    moreover have "runTrace n ts l r (PassStarted l # evs @ evs')"
      using again(1) evs(2) evs'(2) by (rule runTrace.again)
    ultimately show ?thesis by blast
  next
    case stopped
    from runTasks_passTrace [OF stopped(2)] obtain evs where
      evs: "events s' = events s @ PassStarted l # evs" "passTrace l 0 ts emptyContext r evs"
      by auto
    moreover have "runTrace n ts l r (PassStarted l # evs)"
      using stopped(1) evs(2) stopped(3) by (rule runTrace.stopped)
    ultimately show ?thesis by blast
  qed
qed

section \<open>Reading a pass\<close>

lemma dispatches_append [simp]: "dispatches (xs @ ys) = dispatches xs @ dispatches ys"
  by (induction xs rule: dispatches.induct) simp_all

lemma passes_append [simp]: "passes (xs @ ys) = passes xs @ passes ys"
  by (induction xs rule: passes.induct) simp_all

lemma firstContexts_append [simp]:
  "firstContexts (xs @ ys) = firstContexts xs @ firstContexts ys"
  by (induction xs rule: firstContexts.induct) simp_all

lemma dispatches_polls [simp]: "dispatches (map Polled ps) = []"
  by (induction ps) simp_all

lemma passes_polls [simp]: "passes (map Polled ps) = []"
  by (induction ps) simp_all

lemma firstContexts_polls [simp]: "firstContexts (map Polled ps) = []"
  by (induction ps) simp_all

lemma passTrace_passes: "passTrace l i rest ctx r evs \<Longrightarrow> passes evs = []"
  by (induction rule: passTrace.induct) simp_all


lemma passTrace_dispatches:
  "passTrace l i rest ctx r evs \<Longrightarrow>
     \<exists>d \<le> length rest. dispatches evs = map (\<lambda>m. (l, i + m, rest ! m)) [0..<d]
        \<and> (r = Finished \<longrightarrow> d = length rest)"
proof (induction rule: passTrace.induct)
  case (finished l i ctx)
  then show ?case by simp
next
  case (suspended ps l i t rest ctx)
  then show ?case by (intro exI [of _ 0]) simp
next
  case (threw ps l i t rest ctx err)
  then show ?case by (intro exI [of _ 1]) simp
next
  case (returned ps l i rest ctx' r evs t ctx)
  then obtain d where d: "d \<le> length rest"
      "dispatches evs = map (\<lambda>m. (l, Suc i + m, rest ! m)) [0..<d]"
      "r = Finished \<longrightarrow> d = length rest"
    by blast
  have "dispatches (map Polled ps @ Dispatched l i t ctx # evs)
      = map (\<lambda>m. (l, i + m, (t # rest) ! m)) [0..<Suc d]"
    using d(2) by (simp add: map_upt_Suc del: upt_Suc)
  with d(1,3) show ?case by (intro exI [of _ "Suc d"]) simp
qed

lemma passTrace_failed:
  "passTrace l i rest ctx r evs \<Longrightarrow> r = HandlerFailed l' k e \<Longrightarrow>
     l' = l \<and> i \<le> k \<and> k < i + length rest
     \<and> (\<exists>pre c. evs = pre @ [Dispatched l k (rest ! (k - i)) c])"
proof (induction rule: passTrace.induct)
  case (threw ps l i t rest ctx err)
  then show ?case by auto
next
  case (returned ps l i rest ctx' r evs t ctx)
  then obtain pre c where "l' = l" "Suc i \<le> k" "k < Suc i + length rest"
      "evs = pre @ [Dispatched l k (rest ! (k - Suc i)) c]"
    by auto
  moreover from this have "k - i = Suc (k - Suc i)"
    by simp
  then have "(t # rest) ! (k - i) = rest ! (k - Suc i)"
    by simp
  ultimately show ?case
    by (auto intro: exI [of _ "map Polled ps @ Dispatched l i t ctx # pre"])
qed simp_all

section \<open>Reading a run\<close>


lemma runTrace_passes: "runTrace n ts l r evs \<Longrightarrow> r = Finished \<Longrightarrow> passes evs = [l..n - 1]"
proof (induction rule: runTrace.induct)
  case (again l n ts evs r evs')
  then show ?case by (simp add: passTrace_passes upto_rec1 [of l "n - 1"])
qed simp_all

lemma passTrace_Finished_dispatches:
  "passTrace l 0 ts ctx Finished evs \<Longrightarrow> dispatches evs = passDispatches ts l"
  using passTrace_dispatches [of l 0 ts ctx Finished evs] by (auto simp add: passDispatches_def)

lemma runTrace_dispatches:
  "runTrace n ts l r evs \<Longrightarrow> r = Finished \<Longrightarrow>
     dispatches evs = concat (map (passDispatches ts) [l..n - 1])"
proof (induction rule: runTrace.induct)
  case (again l n ts evs r evs')
  then show ?case
    by (simp add: passTrace_Finished_dispatches upto_rec1 [of l "n - 1"])
qed simp_all

lemma runTrace_dispatched_in_range:
  "runTrace n ts l r evs \<Longrightarrow> (l', k, t) \<in> set (dispatches evs) \<Longrightarrow>
     l \<le> l' \<and> l' < n \<and> k < length ts \<and> t = ts ! k"
proof (induction rule: runTrace.induct)
  case (again l n ts evs r evs')
  from passTrace_dispatches [OF again(2)] again(1,4,5) show ?case by auto
next
  case (stopped l n ts r evs)
  from passTrace_dispatches [OF stopped(2)] stopped(1,4) show ?case by auto
qed simp

lemma runTrace_failed:
  "runTrace n ts l r evs \<Longrightarrow> r = HandlerFailed l' k e \<Longrightarrow>
     l \<le> l' \<and> l' < n \<and> k < length ts \<and> (\<exists>pre c. evs = pre @ [Dispatched l' k (ts ! k) c])"
proof (induction rule: runTrace.induct)
  case (again l n ts evs r evs')
  then obtain pre c where "l + 1 \<le> l'" "l' < n" "k < length ts"
      "evs' = pre @ [Dispatched l' k (ts ! k) c]"
    by auto
  then show ?case by (auto intro: exI [of _ "PassStarted l # evs @ pre"])
next
  case (stopped l n ts r evs)
  from passTrace_failed [OF stopped(2) stopped(4)] stopped(1)
  show ?case by (auto intro: exI [of _ "PassStarted l # pre" for pre])
qed simp

section \<open>Around the loops\<close>

lemma foldl_addLog_sel [simp]:
  "tasks (foldl (\<lambda>s' x. addLog (f x) s') s xs) = tasks s"
  "page (foldl (\<lambda>s' x. addLog (f x) s') s xs) = page s"
  "alerts (foldl (\<lambda>s' x. addLog (f x) s') s xs) = alerts s"
  "pauseButton (foldl (\<lambda>s' x. addLog (f x) s') s xs) = pauseButton s"
  "events (foldl (\<lambda>s' x. addLog (f x) s') s xs) = events s"
  by (induction xs arbitrary: s; simp)+

lemma foldl_addLog_status:
  "executionStatus (foldl (\<lambda>s' x. addLog (f x) s') s xs)
     = (executionStatus s)\<lparr>logs := logs (executionStatus s) @ map f xs\<rparr>"
  by (induction xs arbitrary: s) simp_all

lemma beginRun_sel [simp]:
  "tasks (beginRun a s) = tasks s"
  "page (beginRun a s) = page s"
  "alerts (beginRun a s) = alerts s"
  "pauseButton (beginRun a s) = pauseButton s"
  "events (beginRun a s) = events s"
  by (simp_all add: beginRun_def Let_def)

lemma beginRun_status:
  "executionStatus (beginRun a s) =
     (executionStatus s)\<lparr>isExecuting := True, isPaused := False, currentTaskIndex := 0,
        totalTasks := length (tasks s),
        totalLoops := (if hasLoop (tasks s) then Some (loopCountOf (tasks s)) else None),
        logs := (if hasLoop (tasks s) then [LogStarting, LogWillLoop (loopCountOf (tasks s))]
                 else [LogStarting])\<rparr>"
  by (simp add: beginRun_def Let_def foldl_addLog_status)

lemma endRun_sel [simp]:
  "tasks (endRun s) = tasks s"
  "page (endRun s) = page s"
  "alerts (endRun s) = alerts s"
  "pauseButton (endRun s) = pauseButton s"
  "events (endRun s) = events s"
  "executionStatus (endRun s) =
     (executionStatus s)\<lparr>logs := logs (executionStatus s) @ [LogAllExecuted],
        isExecuting := False, isPaused := False, currentTaskIndex := - 1, currentLoop := None\<rparr>"
  by (simp_all add: endRun_def)

lemma executeSequenceE:
  assumes "executeSequence a webviewRef s = (r, s')"
  obtains (notStarted) "tasks s = [] \<or> webviewRef = None" "r = NotStarted" "events s' = events s"
  | (finished) webview s1 where "tasks s \<noteq> []" "webviewRef = Some webview"
      "runLoops webview (executionStatus s) (hasLoop (tasks s)) (loopCountOf (tasks s)) (tasksToExecute (tasks s)) 0
         (beginRun a s) = (Finished, s1)"
      "r = Finished" "s' = endRun s1"
  | (stopped) webview where "tasks s \<noteq> []" "webviewRef = Some webview"
      "runLoops webview (executionStatus s) (hasLoop (tasks s)) (loopCountOf (tasks s)) (tasksToExecute (tasks s)) 0
         (beginRun a s) = (r, s')"
      "r \<noteq> Finished"
  using assms
  by (auto simp add: executeSequence_def split: if_splits option.splits prod.splits Outcome.splits)

text \<open>The events of a run that started.\<close>

lemma executeSequence_runTrace:
  assumes "executeSequence a webviewRef s = (r, s')"
  shows "\<exists>evs. events s' = events s @ evs
           \<and> (r = NotStarted \<and> evs = []
               \<or> runTrace (loopCountOf (tasks s)) (tasksToExecute (tasks s)) 0 r evs)"
  using assms
proof (cases rule: executeSequenceE)
  case notStarted
  then show ?thesis by simp
next
  case (finished webview s1)
  from runLoops_runTrace [OF finished(3)] finished(4,5) show ?thesis by auto
next
  case (stopped webview)
  from runLoops_runTrace [OF stopped(3)] show ?thesis by auto
qed


lemma dispatches_mem: "Dispatched l i t c \<in> set evs \<Longrightarrow> (l, i, t) \<in> set (dispatches evs)"
  by (induction evs rule: dispatches.induct) auto

lemma hasLoop_tasksToExecute:
  "hasLoop ts \<Longrightarrow> tasksToExecute ts = butlast ts"
  "\<not> hasLoop ts \<Longrightarrow> tasksToExecute ts = ts"
  by (simp_all add: tasksToExecute_def)

lemma tasksToExecute_nth: "k < length (tasksToExecute ts) \<Longrightarrow> tasksToExecute ts ! k = ts ! k"
  by (simp add: tasksToExecute_def nth_butlast split: if_splits)

lemma tasksToExecute_length: "length (tasksToExecute ts) \<le> length ts"
  by (simp add: tasksToExecute_def)

lemma hasLoop_tasksToExecute_length:
  "hasLoop ts \<Longrightarrow> length (tasksToExecute ts) = length ts - 1"
  by (simp add: tasksToExecute_def)

section \<open>The status through the loops\<close>

lemma startPass_status:
  "executionStatus (startPass h n l s) =
     (if h \<and> 0 < l
      then (executionStatus s)\<lparr>logs := logs (executionStatus s) @ [LogRestart (l + 1) n],
              currentLoop := Some (l + 1)\<rparr>
      else executionStatus s)"
  by (simp add: startPass_def)

lemma executeTask_status:
  assumes "executeTask webview t ctx s = (r, s')"
  shows "isExecuting (executionStatus s') = isExecuting (executionStatus s)"
    "isPaused (executionStatus s') = isPaused (executionStatus s)"
    "currentTaskIndex (executionStatus s') = currentTaskIndex (executionStatus s)"
    "currentLoop (executionStatus s') = currentLoop (executionStatus s)"
    "totalLoops (executionStatus s') = totalLoops (executionStatus s)"
    "tasks s' = tasks s"
  using executeTask_untouched [of s webview t ctx] assms by (simp_all add: untouched_def)

lemma whilePaused_status:
  assumes "whilePaused rendered bs s = (r, s')"
  shows "currentLoop (executionStatus s') = currentLoop (executionStatus s)"
    "totalLoops (executionStatus s') = totalLoops (executionStatus s)"
    "tasks s' = tasks s"
  using whilePaused_frame [OF assms] by auto

lemma runTasks_status:
  "runTasks webview rendered l i rest ctx s = (r, s') \<Longrightarrow>
     totalLoops (executionStatus s') = totalLoops (executionStatus s)
     \<and> currentLoop (executionStatus s') = currentLoop (executionStatus s)
     \<and> (\<forall>l' k e. r = HandlerFailed l' k e \<longrightarrow>
           \<not> isExecuting (executionStatus s') \<and> \<not> isPaused (executionStatus s')
           \<and> currentTaskIndex (executionStatus s') = int k
           \<and> logs (executionStatus s') \<noteq> []
           \<and> last (logs (executionStatus s')) = LogTaskFailed (k + 1) (message e))"
proof (induction rest arbitrary: i ctx s)
  case Nil
  then show ?case by simp
next
  case (Cons t rest)
  from Cons.prems show ?case
  proof (cases rule: runTasks_ConsE)
    case suspended
    with whilePaused_status [OF suspended(1)] show ?thesis by simp
  next
    case (returned s0 res s2)
    from Cons.IH [OF returned(3)] whilePaused_status [OF returned(1)]
      executeTask_status [OF returned(2)]
    show ?thesis by simp
  next
    case (threw s0 err s2)
    with whilePaused_status [OF threw(1)] executeTask_status [OF threw(2)]
    show ?thesis by simp
  qed
qed

lemma runLoops_status:
  "runLoops webview rendered h n ts l s = (r, s') \<Longrightarrow>
     totalLoops (executionStatus s') = totalLoops (executionStatus s)
     \<and> (\<forall>l' k e. r = HandlerFailed l' k e \<longrightarrow>
           l \<le> l'
           \<and> \<not> isExecuting (executionStatus s') \<and> \<not> isPaused (executionStatus s')
           \<and> currentTaskIndex (executionStatus s') = int k
           \<and> logs (executionStatus s') \<noteq> []
           \<and> last (logs (executionStatus s')) = LogTaskFailed (k + 1) (message e)
           \<and> currentLoop (executionStatus s') =
               (if h \<and> 0 < l' then Some (l' + 1) else currentLoop (executionStatus s)))"
proof (induction webview rendered h n ts l s rule: runLoops.induct)
  case (1 webview rendered h n ts l s)
  from "1.prems" show ?case
  proof (cases rule: runLoopsE)
    case over
    then show ?thesis by simp
  next
    case (again s1)
    from runTasks_status [OF again(2)]
    have s1: "totalLoops (executionStatus s1) = totalLoops (executionStatus s)"
      "currentLoop (executionStatus s1) =
         (if h \<and> 0 < l then Some (l + 1) else currentLoop (executionStatus s))"
      by (simp_all add: startPass_status)
    from "1.IH" [OF again(1) again(2) [symmetric] refl again(3)] s1
    show ?thesis by auto
  next
    case stopped
    from runTasks_status [OF stopped(2)] runTasks_passTrace [OF stopped(2)]
    show ?thesis by (auto simp add: startPass_status dest: passTrace_failed)
  qed
qed

section \<open>The task list through the loops\<close>

lemma update_ids:
  "(\<And>t. taskId (upd t) = taskId t) \<Longrightarrow>
     map taskId (map (\<lambda>t. if taskId t = tid then upd t else t) ts) = map taskId ts"
  by (induction ts) simp_all

lemma update_at_index:
  assumes "distinct (map taskId ts)" and "k < length ts" and "tid = taskId (ts ! k)"
  shows "map (\<lambda>t. if taskId t = tid then upd t else t) ts = ts[k := upd (ts ! k)]"
proof (rule nth_equalityI)
  show "length (map (\<lambda>t. if taskId t = tid then upd t else t) ts) = length (ts[k := upd (ts ! k)])"
    by simp
next
  fix j
  assume "j < length (map (\<lambda>t. if taskId t = tid then upd t else t) ts)"
  then have j: "j < length ts"
    by simp
  have "taskId (ts ! j) = taskId (ts ! k) \<longleftrightarrow> j = k"
    using assms(1,2) j nth_eq_iff_index_eq [of "map taskId ts" j k] by simp
  with j assms(2,3)
  show "map (\<lambda>t. if taskId t = tid then upd t else t) ts ! j = ts[k := upd (ts ! k)] ! j"
    by (simp add: nth_list_update)
qed

lemma startTask_ids: "map taskId (tasks (startTask i t s)) = map taskId (tasks s)"
  by (simp add: update_ids)

lemma completeTask_ids: "map taskId (tasks (completeTask i t res s)) = map taskId (tasks s)"
  by (simp add: update_ids)

lemma failTask_ids: "map taskId (tasks (failTask i t err s)) = map taskId (tasks s)"
  by (simp add: update_ids)

lemma same_ids_nth:
  "map taskId ts' = map taskId ts \<Longrightarrow> j < length ts \<Longrightarrow> taskId (ts' ! j) = taskId (ts ! j)"
  by (metis length_map nth_map)

lemma same_ids_length: "map taskId ts' = map taskId ts \<Longrightarrow> length ts' = length ts"
  by (metis length_map)

text \<open>The task list after the handler for the task at index \<open>i\<close> returned, and after it threw.\<close>

lemma task_returned:
  assumes "whilePaused rendered (pauseButton s) s = (True, s0)"
    and "executeTask webview t ctx (record_event ev (startTask i t s0)) = (Inr res, s2)"
    and "distinct (map taskId (tasks s))" and "i < length (tasks s)"
    and "taskId t = taskId (tasks s ! i)"
  shows "tasks (completeTask i t res s2) =
     (tasks s)[i := (tasks s ! i)\<lparr>status := Completed, result := Some res\<rparr>]"
proof -
  have s0: "tasks s0 = tasks s"
    using whilePaused_status [OF assms(1)] by simp
  have s2: "tasks s2 = tasks (startTask i t s0)"
    using executeTask_status [OF assms(2)] by simp
  have started: "tasks (startTask i t s0) = (tasks s)[i := (tasks s ! i)\<lparr>status := Running\<rparr>]"
    using update_at_index [OF assms(3,4,5)] s0 by simp
  have "map taskId (tasks s2) = map taskId (tasks s)"
    by (simp only: s2 startTask_ids s0)
  then have "distinct (map taskId (tasks s2))"
    using assms(3) by simp
  moreover have "i < length (tasks s2)"
    using assms(4) s2 started by simp
  moreover have "taskId t = taskId (tasks s2 ! i)"
    using assms(4,5) s2 started by simp
  ultimately have "tasks (completeTask i t res s2) =
      (tasks s2)[i := (tasks s2 ! i)\<lparr>status := Completed, result := Some res\<rparr>]"
    using update_at_index [of "tasks s2" i "taskId t"] by simp
  with s2 started assms(4) show ?thesis by simp
qed

lemma task_threw:
  assumes "whilePaused rendered (pauseButton s) s = (True, s0)"
    and "executeTask webview t ctx (record_event ev (startTask i t s0)) = (Inl err, s2)"
    and "distinct (map taskId (tasks s))" and "i < length (tasks s)"
    and "taskId t = taskId (tasks s ! i)"
  shows "tasks (failTask i t err s2) =
     (tasks s)[i := (tasks s ! i)\<lparr>status := Failed, error := Some (message err)\<rparr>]"
proof -
  have s0: "tasks s0 = tasks s"
    using whilePaused_status [OF assms(1)] by simp
  have s2: "tasks s2 = tasks (startTask i t s0)"
    using executeTask_status [OF assms(2)] by simp
  have started: "tasks (startTask i t s0) = (tasks s)[i := (tasks s ! i)\<lparr>status := Running\<rparr>]"
    using update_at_index [OF assms(3,4,5)] s0 by simp
  have "map taskId (tasks s2) = map taskId (tasks s)"
    by (simp only: s2 startTask_ids s0)
  then have "distinct (map taskId (tasks s2))"
    using assms(3) by simp
  moreover have "i < length (tasks s2)"
    using assms(4) s2 started by simp
  moreover have "taskId t = taskId (tasks s2 ! i)"
    using assms(4,5) s2 started by simp
  ultimately have "tasks (failTask i t err s2) =
      (tasks s2)[i := (tasks s2 ! i)\<lparr>status := Failed, error := Some (message err)\<rparr>]"
    using update_at_index [of "tasks s2" i "taskId t"] by simp
  with s2 started assms(4) show ?thesis by simp
qed

lemma runTasks_tasks:
  assumes "runTasks webview rendered l i rest ctx s = (r, s')"
    and "distinct (map taskId (tasks s))"
    and "i + length rest \<le> length (tasks s)"
    and "\<forall>m < length rest. taskId (rest ! m) = taskId (tasks s ! (i + m))"
  shows "map taskId (tasks s') = map taskId (tasks s)
     \<and> (\<forall>j < length (tasks s). j < i \<or> i + length rest \<le> j \<longrightarrow> tasks s' ! j = tasks s ! j)
     \<and> (r = Finished \<longrightarrow>
          (\<forall>j. i \<le> j \<and> j < i + length rest \<longrightarrow> status (tasks s' ! j) = Completed))
     \<and> (\<forall>l' k e. r = HandlerFailed l' k e \<longrightarrow>
          l' = l \<and> i \<le> k \<and> k < i + length rest
          \<and> (\<forall>j. i \<le> j \<and> j < k \<longrightarrow> status (tasks s' ! j) = Completed)
          \<and> status (tasks s' ! k) = Failed \<and> error (tasks s' ! k) = Some (message e)
          \<and> (\<forall>j. k < j \<and> j < length (tasks s) \<longrightarrow> tasks s' ! j = tasks s ! j))"
  using assms
proof (induction rest arbitrary: i ctx s)
  case Nil
  then show ?case by auto
next
  case (Cons t rest)
  have i: "i < length (tasks s)"
    using Cons.prems(3) by simp
  have t: "taskId t = taskId (tasks s ! i)"
    using Cons.prems(4) by auto
  from Cons.prems(1) show ?case
  proof (cases rule: runTasks_ConsE)
    case suspended
    with whilePaused_status [OF suspended(1)] show ?thesis by simp
  next
    case (returned s0 res s2)
    define sC where "sC = completeTask i t res s2"
    have sC: "tasks sC = (tasks s)[i := (tasks s ! i)\<lparr>status := Completed, result := Some res\<rparr>]"
      unfolding sC_def using task_returned [OF returned(1,2) Cons.prems(2) i t] .
    then have ids: "map taskId (tasks sC) = map taskId (tasks s)"
      using i by (simp add: map_update list_update_same_conv)
    have len: "length (tasks sC) = length (tasks s)"
      using sC by simp
    have run: "runTasks webview rendered l (Suc i) rest (spread ctx res) sC = (r, s')"
      unfolding sC_def using returned(3) .
    have "distinct (map taskId (tasks sC))"
      using ids Cons.prems(2) by simp
    moreover have "Suc i + length rest \<le> length (tasks sC)"
      using len Cons.prems(3) by simp
    moreover have "\<forall>m < length rest. taskId (rest ! m) = taskId (tasks sC ! (Suc i + m))"
    proof (intro allI impI)
      fix m
      assume m: "m < length rest"
      then have "taskId (rest ! m) = taskId (tasks s ! (i + Suc m))"
        using Cons.prems(4) by auto
      moreover have "taskId (tasks sC ! (Suc i + m)) = taskId (tasks s ! (Suc i + m))"
        using same_ids_nth [OF ids] m Cons.prems(3) by simp
      ultimately show "taskId (rest ! m) = taskId (tasks sC ! (Suc i + m))"
        by simp
    qed
    ultimately have IH:
      "map taskId (tasks s') = map taskId (tasks sC)
       \<and> (\<forall>j < length (tasks sC). j < Suc i \<or> Suc i + length rest \<le> j
             \<longrightarrow> tasks s' ! j = tasks sC ! j)
       \<and> (r = Finished \<longrightarrow>
            (\<forall>j. Suc i \<le> j \<and> j < Suc i + length rest \<longrightarrow> status (tasks s' ! j) = Completed))
       \<and> (\<forall>l' k e. r = HandlerFailed l' k e \<longrightarrow>
            l' = l \<and> Suc i \<le> k \<and> k < Suc i + length rest
            \<and> (\<forall>j. Suc i \<le> j \<and> j < k \<longrightarrow> status (tasks s' ! j) = Completed)
            \<and> status (tasks s' ! k) = Failed \<and> error (tasks s' ! k) = Some (message e)
            \<and> (\<forall>j. k < j \<and> j < length (tasks sC) \<longrightarrow> tasks s' ! j = tasks sC ! j))"
      using Cons.IH [OF run] by blast
    have at_i: "status (tasks s' ! i) = Completed"
      using IH i len sC by simp
    have other: "tasks sC ! j = tasks s ! j" if "j \<noteq> i" for j
      using sC that by simp
    show ?thesis
    proof (intro conjI allI impI)
      show "map taskId (tasks s') = map taskId (tasks s)"
        using IH ids by simp
    next
      fix j
      assume "j < length (tasks s)" "j < i \<or> i + length (t # rest) \<le> j"
      then show "tasks s' ! j = tasks s ! j"
        using IH len other [of j] by auto
    next
      fix j
      assume "r = Finished" "i \<le> j \<and> j < i + length (t # rest)"
      then show "status (tasks s' ! j) = Completed"
        using IH at_i by (cases "j = i") auto
    next
      fix l' k e
      assume f: "r = HandlerFailed l' k e"
      then show "l' = l" "i \<le> k" "k < i + length (t # rest)"
        "status (tasks s' ! k) = Failed" "error (tasks s' ! k) = Some (message e)"
        using IH by auto
      { fix j
        assume "i \<le> j \<and> j < k"
        then show "status (tasks s' ! j) = Completed"
          using IH f at_i by (cases "j = i") auto
      next
        fix j
        assume "k < j \<and> j < length (tasks s)"
        then show "tasks s' ! j = tasks s ! j"
          using IH f len other [of j] by auto }
    qed
  next
    case (threw s0 err s2)
    have sF: "tasks s' = (tasks s)[i := (tasks s ! i)\<lparr>status := Failed, error := Some (message err)\<rparr>]"
      using task_threw [OF threw(1,2) Cons.prems(2) i t] threw(4) by simp
    then have "map taskId (tasks s') = map taskId (tasks s)"
      using i by (simp add: map_update list_update_same_conv)
    with sF i threw(3) show ?thesis by auto
  qed
qed


lemma runLoops_tasks:
  assumes "runLoops webview rendered h n ts l s = (r, s')"
    and "distinct (map taskId (tasks s))"
    and "length ts \<le> length (tasks s)"
    and "\<forall>m < length ts. taskId (ts ! m) = taskId (tasks s ! m)"
  shows "map taskId (tasks s') = map taskId (tasks s)
     \<and> (\<forall>j. length ts \<le> j \<and> j < length (tasks s) \<longrightarrow> tasks s' ! j = tasks s ! j)
     \<and> (\<forall>l' k e. r = HandlerFailed l' k e \<longrightarrow>
          l \<le> l' \<and> k < length ts
          \<and> (\<forall>j < k. status (tasks s' ! j) = Completed)
          \<and> status (tasks s' ! k) = Failed \<and> error (tasks s' ! k) = Some (message e)
          \<and> (\<forall>j. k < j \<and> j < length ts \<longrightarrow>
                status (tasks s' ! j) = (if l' = l then status (tasks s ! j) else Completed)))"
  using assms
proof (induction webview rendered h n ts l s rule: runLoops.induct)
  case (1 webview rendered h n ts l s)
  define sP where "sP = startPass h n l s"
  have sP: "tasks sP = tasks s"
    by (simp add: sP_def)
  have pre: "distinct (map taskId (tasks sP))" "0 + length ts \<le> length (tasks sP)"
    "\<forall>m < length ts. taskId (ts ! m) = taskId (tasks sP ! (0 + m))"
    using "1.prems"(2,3,4) sP by simp_all
  from "1.prems"(1) show ?case
  proof (cases rule: runLoopsE)
    case over
    then show ?thesis by simp
  next
    case (again s1)
    have run: "runTasks webview rendered l 0 ts emptyContext sP = (Finished, s1)"
      unfolding sP_def using again(2) .
    from runTasks_tasks [OF run pre] sP have s1:
      "map taskId (tasks s1) = map taskId (tasks s)"
      "\<forall>j < length (tasks s). length ts \<le> j \<longrightarrow> tasks s1 ! j = tasks s ! j"
      "\<forall>j < length ts. status (tasks s1 ! j) = Completed"
      by simp_all
    have len: "length (tasks s1) = length (tasks s)"
      using same_ids_length [OF s1(1)] .
    have "distinct (map taskId (tasks s1))"
      using s1(1) "1.prems"(2) by simp
    moreover have "length ts \<le> length (tasks s1)"
      using len "1.prems"(3) by simp
    moreover have "\<forall>m < length ts. taskId (ts ! m) = taskId (tasks s1 ! m)"
      using "1.prems"(3,4) same_ids_nth [OF s1(1)] by simp
    ultimately have IH:
      "map taskId (tasks s') = map taskId (tasks s1)
       \<and> (\<forall>j. length ts \<le> j \<and> j < length (tasks s1) \<longrightarrow> tasks s' ! j = tasks s1 ! j)
       \<and> (\<forall>l' k e. r = HandlerFailed l' k e \<longrightarrow>
            l + 1 \<le> l' \<and> k < length ts
            \<and> (\<forall>j < k. status (tasks s' ! j) = Completed)
            \<and> status (tasks s' ! k) = Failed \<and> error (tasks s' ! k) = Some (message e)
            \<and> (\<forall>j. k < j \<and> j < length ts \<longrightarrow>
                  status (tasks s' ! j) =
                    (if l' = l + 1 then status (tasks s1 ! j) else Completed)))"
      using "1.IH" [OF again(1) again(2) [symmetric] refl again(3)] by blast
    show ?thesis
    proof (intro conjI allI impI)
      show "map taskId (tasks s') = map taskId (tasks s)"
        using IH s1(1) by simp
    next
      fix j
      assume "length ts \<le> j \<and> j < length (tasks s)"
      then show "tasks s' ! j = tasks s ! j"
        using IH s1(2) len by simp
    next
      fix l' k e
      assume f: "r = HandlerFailed l' k e"
      then show "l \<le> l'" "k < length ts" "status (tasks s' ! k) = Failed"
        "error (tasks s' ! k) = Some (message e)"
        using IH by auto
      { fix j
        assume "j < k"
        then show "status (tasks s' ! j) = Completed"
          using IH f by simp
      next
        fix j
        assume "k < j \<and> j < length ts"
        then show "status (tasks s' ! j) = (if l' = l then status (tasks s ! j) else Completed)"
          using IH f s1(3) by auto }
    qed
  next
    case stopped
    have run: "runTasks webview rendered l 0 ts emptyContext sP = (r, s')"
      unfolding sP_def using stopped(2) .
    from runTasks_tasks [OF run pre] sP "1.prems"(3) show ?thesis
      by auto
  qed
qed

section \<open>Handlers\<close>





lemma orElse_None_iff: "orElse a b = None \<longleftrightarrow> a = None \<and> b = None"
  by (cases a) simp_all

lemma resolveTextToFind_fst:
  "fst (resolveTextToFind task context s) =
     orElse (truthy (configText (config task)))
       (orElse (truthy (selector (config task))) (truthy (lastFoundText context)))"
  by (cases "truthy (configText (config task))"; cases "truthy (selector (config task))";
      cases "truthy (lastFoundText context)") (simp_all add: resolveTextToFind_def)

lemma page_resolveTextToFind: "page (snd (resolveTextToFind task context s)) = page s"
  by (simp add: resolveTextToFind_def Let_def split: option.splits)

lemma executeFind_fst:
  "fst (executeFind webview task context s) =
     (case fst (resolveTextToFind task context s) of
        None \<Rightarrow> Inl TextToFindRequired
      | Some t \<Rightarrow>
          (case fst (scrollToMatch webview t
                  (findInPage webview t
                     (clearHighlights webview
                        (stopFindInPage webview ''clearSelection'' (page s))))) of
             Inl m \<Rightarrow> Inl (ScriptError m)
           | Inr found \<Rightarrow> Inr (emptyContext\<lparr>lastFoundText := Some t\<rparr>)))"
proof -
  define s2 where
    "s2 = onPage (clearHighlights webview) (onPage (stopFindInPage webview ''clearSelection'') s)"
  obtain textToFind s3 where res: "resolveTextToFind task context s2 = (textToFind, s3)"
    by (cases "resolveTextToFind task context s2")
  have "textToFind = fst (resolveTextToFind task context s)"
    using res resolveTextToFind_fst [of task "context" s2]
    by (simp add: resolveTextToFind_fst)
  moreover have "page s3 = clearHighlights webview (stopFindInPage webview ''clearSelection'' (page s))"
    using res page_resolveTextToFind [of task "context" s2] by (simp add: s2_def)
  moreover have "fst (executeFind webview task context s) =
     (case textToFind of
        None \<Rightarrow> Inl TextToFindRequired
      | Some t \<Rightarrow>
          (case fst (scrollToMatch webview t (findInPage webview t (page s3))) of
             Inl m \<Rightarrow> Inl (ScriptError m)
           | Inr found \<Rightarrow> Inr (emptyContext\<lparr>lastFoundText := Some t\<rparr>)))"
    using res
    by (simp add: executeFind_def s2_def [symmetric] Let_def askPage_def
        split: option.splits sum.splits)
  ultimately show ?thesis
    by (simp cong del: option.case_cong_weak sum.case_cong_weak)
qed



text \<open>
  C10. The find handler takes its text from \<^verbatim>\<open>config.text\<close> when that is set and not
  the empty string, otherwise from \<^verbatim>\<open>config.selector\<close> when that is set and not the
  empty string, otherwise from the context's \<open>lastFoundText\<close>; it throws
  \<open>TextToFindRequired\<close> exactly when all three are unset or empty. With a selector alone
  the text resolves to the selector. Once the text is resolved, the handler returns it
  as \<open>lastFoundText\<close>, unless the scroll script that the text is pasted into is
  rejected, which is a script error and not \<open>TextToFindRequired\<close>.
\<close>

theorem find_text_resolution:
  assumes "taskType task = Find"
  shows "(fst (executeTask webview task context s) = Inl TextToFindRequired
           \<longleftrightarrow> configText (config task) \<in> {None, Some []}
               \<and> selector (config task) \<in> {None, Some []}
               \<and> lastFoundText context \<in> {None, Some []})
    \<and> (\<forall>t. t \<noteq> [] \<and> configText (config task) = Some t
           \<longrightarrow> fst (resolveTextToFind task context s) = Some t
             \<and> fst (executeTask webview task context s) =
                 (case fst (scrollToMatch webview t
                         (findInPage webview t
                            (clearHighlights webview
                               (stopFindInPage webview ''clearSelection'' (page s))))) of
                    Inl m \<Rightarrow> Inl (ScriptError m)
                  | Inr found \<Rightarrow> Inr (emptyContext\<lparr>lastFoundText := Some t\<rparr>)))
    \<and> (\<forall>t. t \<noteq> [] \<and> configText (config task) \<in> {None, Some []}
             \<and> selector (config task) = Some t
           \<longrightarrow> fst (resolveTextToFind task context s) = Some t
             \<and> fst (executeTask webview task context s) =
                 (case fst (scrollToMatch webview t
                         (findInPage webview t
                            (clearHighlights webview
                               (stopFindInPage webview ''clearSelection'' (page s))))) of
                    Inl m \<Rightarrow> Inl (ScriptError m)
                  | Inr found \<Rightarrow> Inr (emptyContext\<lparr>lastFoundText := Some t\<rparr>)))
    \<and> (\<forall>t. t \<noteq> [] \<and> configText (config task) \<in> {None, Some []}
             \<and> selector (config task) \<in> {None, Some []} \<and> lastFoundText context = Some t
           \<longrightarrow> fst (resolveTextToFind task context s) = Some t
             \<and> fst (executeTask webview task context s) =
                 (case fst (scrollToMatch webview t
                         (findInPage webview t
                            (clearHighlights webview
                               (stopFindInPage webview ''clearSelection'' (page s))))) of
                    Inl m \<Rightarrow> Inl (ScriptError m)
                  | Inr found \<Rightarrow> Inr (emptyContext\<lparr>lastFoundText := Some t\<rparr>)))"
proof -
  have find: "executeTask webview task context s = executeFind webview task context s"
    using assms by (simp add: executeTask_def)
  show ?thesis
    unfolding find executeFind_fst resolveTextToFind_fst
    by (cases "configText (config task)"; cases "selector (config task)";
        cases "lastFoundText context")
      (auto split: sum.splits)
qed


theorem find_text_resolution_witness:
  "taskType findBySelector = Find
   \<and> configText (config findBySelector) \<in> {None, Some []}
   \<and> selector (config findBySelector) = Some ''Contact''
   \<and> fst (executeTask clickAwayView findBySelector emptyContext (freshState [] []))
      = Inr (emptyContext\<lparr>lastFoundText := Some ''Contact''\<rparr>)
   \<and> taskType findEmptyText = Find
   \<and> configText (config findEmptyText) = Some []
   \<and> selector (config findEmptyText) = Some ''Contact''
   \<and> fst (executeTask clickAwayView findEmptyText emptyContext (freshState [] []))
      = Inr (emptyContext\<lparr>lastFoundText := Some ''Contact''\<rparr>)
   \<and> taskType findNothing = Find
   \<and> configText (config findNothing) = Some [] \<and> selector (config findNothing) = Some []
   \<and> fst (executeTask clickAwayView findNothing (emptyContext\<lparr>lastFoundText := Some []\<rparr>)
         (freshState [] []))
      = Inl TextToFindRequired
   \<and> fst (executeTask clickAwayView findNothing
         (emptyContext\<lparr>lastFoundText := Some ''Contact''\<rparr>) (freshState [] []))
      = Inr (emptyContext\<lparr>lastFoundText := Some ''Contact''\<rparr>)
   \<and> taskType findBackslash = Find
   \<and> configText (config findBackslash) = Some backslashText \<and> backslashText \<noteq> []
   \<and> fst (resolveTextToFind findBackslash emptyContext (freshState [] [])) = Some backslashText
   \<and> fst (executeTask clickAwayView findBackslash emptyContext (freshState [] []))
      = Inl (ScriptError ''SyntaxError: Invalid or unexpected token'')"
proof -
  have c: "taskType findBySelector = Find" "configText (config findBySelector) = None"
    "selector (config findBySelector) = Some ''Contact''"
    "taskType findEmptyText = Find" "configText (config findEmptyText) = Some []"
    "selector (config findEmptyText) = Some ''Contact''"
    "taskType findNothing = Find" "configText (config findNothing) = Some []"
    "selector (config findNothing) = Some []"
    "taskType findBackslash = Find" "configText (config findBackslash) = Some backslashText"
    "backslashText \<noteq> []"
    by (simp_all add: findBySelector_def findEmptyText_def findNothing_def findBackslash_def
        newTask_def noConfig_def backslashText_def)
  have ok: "fst (scrollToMatch clickAwayView ''Contact'' w) = Inr True" for w
    by (simp add: clickAwayView_def)
  have bad: "fst (scrollToMatch clickAwayView backslashText w)
      = Inl ''SyntaxError: Invalid or unexpected token''" for w
    by (simp add: clickAwayView_def backslashText_def)
  from find_text_resolution [OF c(1), of clickAwayView emptyContext "freshState [] []"]
    find_text_resolution [OF c(4), of clickAwayView emptyContext "freshState [] []"]
    find_text_resolution [OF c(7), of clickAwayView "emptyContext\<lparr>lastFoundText := Some []\<rparr>"
      "freshState [] []"]
    find_text_resolution [OF c(7), of clickAwayView
      "emptyContext\<lparr>lastFoundText := Some ''Contact''\<rparr>" "freshState [] []"]
    find_text_resolution [OF c(10), of clickAwayView emptyContext "freshState [] []"]
  show ?thesis
    by (simp add: c ok bad)
qed

section \<open>Starting a run\<close>

text \<open>
  C6. With an empty sequence or without a page view the run does not start: an alert is
  shown, and the execution status, the tasks, the page and the record of events (so no
  handler call) are as they were.
\<close>

theorem precondition_abort:
  assumes "tasks s = [] \<or> webviewRef = None"
  shows "fst (executeSequence analyzeTaskSequence webviewRef s) = NotStarted
    \<and> executionStatus (snd (executeSequence analyzeTaskSequence webviewRef s)) = executionStatus s
    \<and> tasks (snd (executeSequence analyzeTaskSequence webviewRef s)) = tasks s
    \<and> page (snd (executeSequence analyzeTaskSequence webviewRef s)) = page s
    \<and> events (snd (executeSequence analyzeTaskSequence webviewRef s)) = events s
    \<and> alerts (snd (executeSequence analyzeTaskSequence webviewRef s)) =
        alerts s @ [if tasks s = [] then ''No tasks to execute'' else ''Webview not available'']"
  using assms by (auto simp add: executeSequence_def)

theorem precondition_abort_witness:
  "(tasks (freshState [] []) = [] \<or> Some clickAwayView = None)
   \<and> fst (executeSequence noWarnings (Some clickAwayView) (freshState [] [])) = NotStarted
   \<and> executionStatus (snd (executeSequence noWarnings (Some clickAwayView) (freshState [] [])))
       = idleStatus
   \<and> alerts (snd (executeSequence noWarnings (Some clickAwayView) (freshState [] [])))
       = [''No tasks to execute'']
   \<and> (tasks (freshState [newTask ''t1'' Wait noConfig] []) = []
        \<or> (None :: nat WebViewRef option) = None)
   \<and> executionStatus
        (snd (executeSequence noWarnings None (freshState [newTask ''t1'' Wait noConfig] [])))
       = idleStatus
   \<and> alerts (snd (executeSequence noWarnings None (freshState [newTask ''t1'' Wait noConfig] [])))
       = [''Webview not available'']"
  using precondition_abort [of "freshState [] []" "Some clickAwayView" noWarnings]
    precondition_abort [of "freshState [newTask ''t1'' Wait noConfig] []" None noWarnings]
  by (simp add: freshState_def)

section \<open>The order of the handler calls\<close>

text \<open>
  C1, as amended. In a run that finishes (no handler throws): without a trailing loop
  task every task is dispatched once, in list order; with a trailing loop task of count
  \<open>N > 1\<close> the tasks before it are dispatched in list order in each of the passes
  \<open>0, \<dots>, N - 1\<close>, and the trailing loop task, which is not among them, is not
  dispatched.
\<close>

theorem dispatch_order_when_finished:
  assumes "executeSequence analyzeTaskSequence webviewRef s = (Finished, s')"
  shows "(\<not> hasLoop (tasks s) \<longrightarrow>
            dispatches (events s') = dispatches (events s) @ passDispatches (tasks s) 0)
    \<and> (\<forall>N. hasLoop (tasks s) \<and> loopCount (config (last (tasks s))) = Some N \<and> N > 1 \<longrightarrow>
            dispatches (events s') =
              dispatches (events s) @ concat (map (passDispatches (butlast (tasks s))) [0..N - 1]))"
proof -
  from executeSequence_runTrace [OF assms] obtain evs where
    evs: "events s' = events s @ evs"
      "runTrace (loopCountOf (tasks s)) (tasksToExecute (tasks s)) 0 Finished evs"
    by auto
  from runTrace_dispatches [OF evs(2) refl] evs(1) have
    all: "dispatches (events s') = dispatches (events s)
       @ concat (map (passDispatches (tasksToExecute (tasks s))) [0..loopCountOf (tasks s) - 1])"
    by simp
  show ?thesis
  proof (intro conjI impI allI)
    assume "\<not> hasLoop (tasks s)"
    with all show "dispatches (events s') = dispatches (events s) @ passDispatches (tasks s) 0"
      by (simp add: loopCountOf_def tasksToExecute_def)
  next
    fix N
    assume "hasLoop (tasks s) \<and> loopCount (config (last (tasks s))) = Some N \<and> N > 1"
    with all show "dispatches (events s') =
        dispatches (events s) @ concat (map (passDispatches (butlast (tasks s))) [0..N - 1])"
      by (simp add: loopCountOf_def tasksToExecute_def)
  qed
qed


theorem dispatch_order_when_finished_witness:
  "executeSequence noWarnings (Some clickAwayView) (freshState twoPassTasks [])
     = (Finished, snd (executeSequence noWarnings (Some clickAwayView) (freshState twoPassTasks [])))
   \<and> hasLoop twoPassTasks \<and> loopCount (config (last twoPassTasks)) = Some 2
   \<and> dispatches (events (snd (executeSequence noWarnings (Some clickAwayView)
         (freshState twoPassTasks []))))
      = [(0, 0, newTask ''t1'' Wait noConfig), (0, 1, newTask ''t2'' Scroll noConfig),
         (1, 0, newTask ''t1'' Wait noConfig), (1, 1, newTask ''t2'' Scroll noConfig)]
   \<and> executeSequence noWarnings (Some clickAwayView) (freshState onePassTasks [])
     = (Finished, snd (executeSequence noWarnings (Some clickAwayView) (freshState onePassTasks [])))
   \<and> \<not> hasLoop onePassTasks
   \<and> dispatches (events (snd (executeSequence noWarnings (Some clickAwayView)
         (freshState onePassTasks []))))
      = [(0, 0, newTask ''t1'' Wait noConfig), (0, 1, newTask ''t2'' Scroll noConfig)]"
proof -
  have "fst (executeSequence noWarnings (Some clickAwayView) (freshState twoPassTasks []))
      = Finished"
    by code_simp
  then have two: "executeSequence noWarnings (Some clickAwayView) (freshState twoPassTasks [])
     = (Finished, snd (executeSequence noWarnings (Some clickAwayView) (freshState twoPassTasks [])))"
    by (simp add: prod_eq_iff)
  have "fst (executeSequence noWarnings (Some clickAwayView) (freshState onePassTasks []))
      = Finished"
    by code_simp
  then have one: "executeSequence noWarnings (Some clickAwayView) (freshState onePassTasks [])
     = (Finished, snd (executeSequence noWarnings (Some clickAwayView) (freshState onePassTasks [])))"
    by (simp add: prod_eq_iff)
  have h2: "hasLoop twoPassTasks" "loopCount (config (last twoPassTasks)) = Some 2"
    and h1: "\<not> hasLoop onePassTasks"
    by code_simp+
  have p2: "concat (map (passDispatches (butlast twoPassTasks)) [0..2 - 1])
      = [(0, 0, newTask ''t1'' Wait noConfig), (0, 1, newTask ''t2'' Scroll noConfig),
         (1, 0, newTask ''t1'' Wait noConfig), (1, 1, newTask ''t2'' Scroll noConfig)]"
    by code_simp
  have p1: "passDispatches onePassTasks 0
      = [(0, 0, newTask ''t1'' Wait noConfig), (0, 1, newTask ''t2'' Scroll noConfig)]"
    by code_simp
  from dispatch_order_when_finished [OF two] h2 p2
  have "dispatches (events (snd (executeSequence noWarnings (Some clickAwayView)
         (freshState twoPassTasks []))))
      = [(0, 0, newTask ''t1'' Wait noConfig), (0, 1, newTask ''t2'' Scroll noConfig),
         (1, 0, newTask ''t1'' Wait noConfig), (1, 1, newTask ''t2'' Scroll noConfig)]"
    by (simp add: freshState_def)
  moreover from dispatch_order_when_finished [OF one] h1 p1
  have "dispatches (events (snd (executeSequence noWarnings (Some clickAwayView)
         (freshState onePassTasks []))))
      = [(0, 0, newTask ''t1'' Wait noConfig), (0, 1, newTask ''t2'' Scroll noConfig)]"
    by (simp add: freshState_def)
  ultimately show ?thesis using two one h1 h2 by simp
qed

text \<open>
  C1 as stated fails when a handler throws: a search task without a query before a loop
  task of count 2 is dispatched once, and the run stops.
\<close>

theorem dispatch_twice_counterexample:
  "hasLoop failingTasks \<and> loopCount (config (last failingTasks)) = Some 2
   \<and> fst (executeSequence noWarnings (Some clickAwayView) (freshState failingTasks []))
      = HandlerFailed 0 0 SearchQueryRequired
   \<and> dispatches (events (snd (executeSequence noWarnings (Some clickAwayView)
         (freshState failingTasks []))))
      = [(0, 0, newTask ''t1'' Search noConfig)]
   \<and> dispatches (events (snd (executeSequence noWarnings (Some clickAwayView)
         (freshState failingTasks []))))
      \<noteq> concat (map (passDispatches (butlast failingTasks)) [0..2 - 1])"
  by code_simp

section \<open>The context of a pass\<close>



section \<open>The number of passes\<close>

text \<open>
  C4, as amended. In a run with a trailing loop task that finishes (no handler throws),
  the passes are \<open>0, \<dots>, n - 1\<close>, where \<open>n\<close> is the configured count, or 1 when the count
  is unset or zero: as many passes as a positive count says, one pass for an unset or
  zero count, and no pass for a negative count.
\<close>

theorem passes_when_finished:
  assumes "executeSequence analyzeTaskSequence webviewRef s = (Finished, s')"
    and "hasLoop (tasks s)"
  shows "let n = (case loopCount (config (last (tasks s))) of
                    None \<Rightarrow> 1 | Some c \<Rightarrow> if c = 0 then 1 else c)
         in passes (events s') = passes (events s) @ [0..n - 1]
            \<and> length [0..n - 1] = nat n"
proof -
  from executeSequence_runTrace [OF assms(1)] obtain evs where
    evs: "events s' = events s @ evs"
      "runTrace (loopCountOf (tasks s)) (tasksToExecute (tasks s)) 0 Finished evs"
    by auto
  have "loopCountOf (tasks s) = (case loopCount (config (last (tasks s))) of
                    None \<Rightarrow> 1 | Some c \<Rightarrow> if c = 0 then 1 else c)"
    using assms(2) by (simp add: loopCountOf_def split: option.splits)
  with runTrace_passes [OF evs(2) refl] evs(1) show ?thesis
    by (simp add: Let_def)
qed

theorem passes_when_finished_witness:
  "executeSequence noWarnings (Some clickAwayView) (freshState twoPassTasks [])
     = (Finished, snd (executeSequence noWarnings (Some clickAwayView) (freshState twoPassTasks [])))
   \<and> hasLoop twoPassTasks \<and> loopCount (config (last twoPassTasks)) = Some 2
   \<and> passes (events (snd (executeSequence noWarnings (Some clickAwayView)
         (freshState twoPassTasks [])))) = [0, 1]"
proof -
  have "fst (executeSequence noWarnings (Some clickAwayView) (freshState twoPassTasks []))
      = Finished"
    by code_simp
  then have run: "executeSequence noWarnings (Some clickAwayView) (freshState twoPassTasks [])
     = (Finished, snd (executeSequence noWarnings (Some clickAwayView) (freshState twoPassTasks [])))"
    by (simp add: prod_eq_iff)
  have h: "hasLoop twoPassTasks" "loopCount (config (last twoPassTasks)) = Some 2"
    by code_simp+
  have u: "[0..(2::int) - 1] = [0, 1]"
    by code_simp
  from passes_when_finished [OF run] h u run show ?thesis
    by (simp add: freshState_def Let_def)
qed

text \<open>
  C4 as stated fails for a negative count: with a count of \<open>- 3\<close> the run finishes
  without a single pass.
\<close>

theorem negative_count_counterexample:
  "hasLoop negativeLoopTasks \<and> loopCount (config (last negativeLoopTasks)) = Some (- 3)
   \<and> fst (executeSequence noWarnings (Some clickAwayView) (freshState negativeLoopTasks []))
      = Finished
   \<and> passes (events (snd (executeSequence noWarnings (Some clickAwayView)
         (freshState negativeLoopTasks [])))) = []
   \<and> length (passes (events (snd (executeSequence noWarnings (Some clickAwayView)
         (freshState negativeLoopTasks []))))) \<noteq> 1"
  by code_simp

section \<open>Loop tasks\<close>

text \<open>
  C5, as amended. Every handler call is for a task among \<open>tasksToExecute\<close>, so a trailing
  loop task is never dispatched; a loop task at another position is dispatched like any
  task, and its handler appends a log line and returns the context unchanged.
\<close>

theorem trailing_loop_not_dispatched:
  "(\<exists>evs. events (snd (executeSequence analyzeTaskSequence webviewRef s)) = events s @ evs
      \<and> (\<forall>l k t c. Dispatched l k t c \<in> set evs \<longrightarrow>
            k < length (tasksToExecute (tasks s)) \<and> t = tasks s ! k
            \<and> (hasLoop (tasks s) \<longrightarrow> k < length (tasks s) - 1)))
   \<and> (\<forall>task context s0. taskType task = Loop \<longrightarrow>
         executeTask webview task context s0 = (Inr context, addLog LogLoopTask s0))"
proof -
  obtain r s' where run: "executeSequence analyzeTaskSequence webviewRef s = (r, s')"
    by (cases "executeSequence analyzeTaskSequence webviewRef s")
  from executeSequence_runTrace [OF run] obtain evs where
    evs: "events s' = events s @ evs"
      "r = NotStarted \<and> evs = []
        \<or> runTrace (loopCountOf (tasks s)) (tasksToExecute (tasks s)) 0 r evs"
    by auto
  have "k < length (tasksToExecute (tasks s)) \<and> t = tasks s ! k
      \<and> (hasLoop (tasks s) \<longrightarrow> k < length (tasks s) - 1)"
    if "Dispatched l k t c \<in> set evs" for l k t c
  proof -
    from that evs(2) have rt: "runTrace (loopCountOf (tasks s)) (tasksToExecute (tasks s)) 0 r evs"
      by auto
    from runTrace_dispatched_in_range [OF rt dispatches_mem [OF that]]
    show ?thesis
      by (auto simp add: tasksToExecute_nth hasLoop_tasksToExecute_length)
  qed
  with evs(1) run show ?thesis by (auto simp add: executeTask_def)
qed

theorem trailing_loop_not_dispatched_witness:
  "hasLoop twoPassTasks
   \<and> Dispatched 1 1 (newTask ''t2'' Scroll noConfig) emptyContext
       \<in> set (events (snd (executeSequence noWarnings (Some clickAwayView)
                (freshState twoPassTasks []))))
   \<and> 1 < length twoPassTasks - 1
   \<and> taskType (newTask ''t1'' Loop noConfig) = Loop
   \<and> executeTask clickAwayView (newTask ''t1'' Loop noConfig) emptyContext (freshState [] [])
      = (Inr emptyContext, addLog LogLoopTask (freshState [] []))"
proof -
  have h: "hasLoop twoPassTasks" "length twoPassTasks = 3"
    "tasks (freshState twoPassTasks []) = twoPassTasks"
    "taskType (newTask ''t1'' Loop noConfig) = Loop"
    by code_simp+
  have ev: "Dispatched 1 1 (newTask ''t2'' Scroll noConfig) emptyContext
       \<in> set (events (snd (executeSequence noWarnings (Some clickAwayView)
                (freshState twoPassTasks []))))"
    by code_simp
  show ?thesis
    using trailing_loop_not_dispatched [of noWarnings "Some clickAwayView"
        "freshState twoPassTasks []" clickAwayView] h ev
    by auto
qed

text \<open>
  C5 as stated fails for a loop task that is not the last task: it is dispatched to the
  handler and marked completed.
\<close>

theorem loop_task_dispatched_counterexample:
  "taskType (loopFirstTasks ! 0) = Loop
   \<and> fst (executeSequence noWarnings (Some clickAwayView) (freshState loopFirstTasks []))
      = Finished
   \<and> dispatches (events (snd (executeSequence noWarnings (Some clickAwayView)
         (freshState loopFirstTasks []))))
      = [(0, 0, loopFirstTasks ! 0), (0, 1, loopFirstTasks ! 1)]
   \<and> status (tasks (snd (executeSequence noWarnings (Some clickAwayView)
         (freshState loopFirstTasks []))) ! 0) = Completed"
  by code_simp

section \<open>Pausing\<close>

text \<open>
  C8. While \<open>isPaused\<close> is true no new task should start. The pause check reads the
  status record of the render in which the run was started. With a store that puts a
  new record in place on every write, the check does not see the pause button: in a
  sequence of two tasks with the button pressed while the first task runs, the second
  check reads \<open>False\<close>, the second task is dispatched and completed, and the run finishes,
  while the store's \<open>isPaused\<close> is true from the press to the end of the pass. Only
  with a store that writes into the record in place is the same run held before the
  second task.
\<close>

theorem pause_not_seen:
  "fst (executeSequence noWarnings (Some clickAwayView) (freshState onePassTasks [False, True]))
      = Finished
   \<and> events (snd (executeSequence noWarnings (Some clickAwayView)
         (freshState onePassTasks [False, True])))
      = [PassStarted 0, Polled False,
         Dispatched 0 0 (newTask ''t1'' Wait noConfig) emptyContext,
         Polled False,
         Dispatched 0 1 (newTask ''t2'' Scroll noConfig) emptyContext]
   \<and> fst (runLoops clickAwayView idleStatus False 1 onePassTasks 0
         (beginRun noWarnings (freshState onePassTasks [False, True]))) = Finished
   \<and> isPaused (executionStatus (snd (runLoops clickAwayView idleStatus False 1 onePassTasks 0
         (beginRun noWarnings (freshState onePassTasks [False, True])))))
   \<and> map status (tasks (snd (runLoops clickAwayView idleStatus False 1 onePassTasks 0
         (beginRun noWarnings (freshState onePassTasks [False, True])))))
      = [Completed, Completed]
   \<and> fst (whilePaused idleStatus [True] (freshState onePassTasks [True]))
   \<and> isPaused (executionStatus (snd (whilePaused idleStatus [True]
         (freshState onePassTasks [True]))))
   \<and> fst (executeSequence noWarnings (Some clickAwayView)
         ((freshState onePassTasks [False, True])\<lparr>statusInPlace := True\<rparr>)) = Suspended
   \<and> dispatches (events (snd (executeSequence noWarnings (Some clickAwayView)
         ((freshState onePassTasks [False, True])\<lparr>statusInPlace := True\<rparr>))))
      = [(0, 0, newTask ''t1'' Wait noConfig)]"
  by code_simp

section \<open>The status after a run\<close>

text \<open>
  C7, as amended. After a run that finished, the success marker is the last log line,
  \<open>isExecuting\<close> and \<open>isPaused\<close> are false, \<open>currentTaskIndex\<close> is \<open>- 1\<close> and
  \<open>currentLoop\<close> is cleared, while \<open>totalLoops\<close> keeps the value the run started with
  (the loop count, or nothing without a trailing loop task). After a run that failed,
  \<open>isExecuting\<close> and \<open>isPaused\<close> are false and \<open>currentTaskIndex\<close> is the index of the
  task that failed.
\<close>

theorem status_after_run:
  assumes "executeSequence analyzeTaskSequence webviewRef s = (r, s')"
  shows "(r = Finished \<longrightarrow>
            \<not> isExecuting (executionStatus s') \<and> \<not> isPaused (executionStatus s')
            \<and> currentTaskIndex (executionStatus s') = - 1
            \<and> currentLoop (executionStatus s') = None
            \<and> logs (executionStatus s') \<noteq> []
            \<and> last (logs (executionStatus s')) = LogAllExecuted
            \<and> totalLoops (executionStatus s') =
                (if hasLoop (tasks s) then Some (loopCountOf (tasks s)) else None))
    \<and> (\<forall>l i e. r = HandlerFailed l i e \<longrightarrow>
            \<not> isExecuting (executionStatus s') \<and> \<not> isPaused (executionStatus s')
            \<and> currentTaskIndex (executionStatus s') = int i)"
  using assms
proof (cases rule: executeSequenceE)
  case notStarted
  then show ?thesis by simp
next
  case (finished webview s1)
  from runLoops_status [OF finished(3)] finished(4,5) show ?thesis
    by (simp add: beginRun_status)
next
  case (stopped webview)
  from runLoops_status [OF stopped(3)] stopped(4) show ?thesis
    by (simp add: beginRun_status)
qed

theorem status_after_run_witness:
  "executeSequence noWarnings (Some clickAwayView) (freshState twoPassTasks [])
     = (Finished, snd (executeSequence noWarnings (Some clickAwayView) (freshState twoPassTasks [])))
   \<and> currentTaskIndex (executionStatus (snd (executeSequence noWarnings (Some clickAwayView)
         (freshState twoPassTasks [])))) = - 1
   \<and> totalLoops (executionStatus (snd (executeSequence noWarnings (Some clickAwayView)
         (freshState twoPassTasks [])))) = Some 2
   \<and> executeSequence noWarnings (Some clickAwayView) (freshState clickNextTasks [])
     = (HandlerFailed 1 0 (ScriptError ''Element not found''),
        snd (executeSequence noWarnings (Some clickAwayView) (freshState clickNextTasks [])))
   \<and> \<not> isExecuting (executionStatus (snd (executeSequence noWarnings (Some clickAwayView)
         (freshState clickNextTasks []))))
   \<and> currentTaskIndex (executionStatus (snd (executeSequence noWarnings (Some clickAwayView)
         (freshState clickNextTasks [])))) = 0"
proof -
  have "fst (executeSequence noWarnings (Some clickAwayView) (freshState twoPassTasks []))
      = Finished"
    by code_simp
  then have two: "executeSequence noWarnings (Some clickAwayView) (freshState twoPassTasks [])
     = (Finished, snd (executeSequence noWarnings (Some clickAwayView) (freshState twoPassTasks [])))"
    by (simp add: prod_eq_iff)
  have "fst (executeSequence noWarnings (Some clickAwayView) (freshState clickNextTasks []))
      = HandlerFailed 1 0 (ScriptError ''Element not found'')"
    by code_simp
  then have click: "executeSequence noWarnings (Some clickAwayView) (freshState clickNextTasks [])
     = (HandlerFailed 1 0 (ScriptError ''Element not found''),
        snd (executeSequence noWarnings (Some clickAwayView) (freshState clickNextTasks [])))"
    by (simp add: prod_eq_iff)
  have h: "hasLoop twoPassTasks" "loopCountOf twoPassTasks = 2" "hasLoop clickNextTasks"
    by code_simp+
  from status_after_run [OF two] status_after_run [OF click] h two click show ?thesis
    by (simp add: freshState_def)
qed

text \<open>
  C7 as stated fails for \<open>totalLoops\<close>: after two finished passes it still holds the
  loop count.
\<close>

theorem total_loops_kept_counterexample:
  "fst (executeSequence noWarnings (Some clickAwayView) (freshState twoPassTasks [])) = Finished
   \<and> totalLoops (executionStatus (snd (executeSequence noWarnings (Some clickAwayView)
         (freshState twoPassTasks [])))) = Some 2
   \<and> totalLoops (executionStatus (snd (executeSequence noWarnings (Some clickAwayView)
         (freshState twoPassTasks [])))) \<noteq> None"
  by code_simp

section \<open>A handler that throws\<close>

text \<open>
  C2, as amended. When the handler of the task at index \<open>i\<close> throws in pass \<open>l\<close> (task ids
  being unique): that task is marked failed with the error message, the failure line is
  the last line of the log, \<open>isExecuting\<close> is false, and the call of that handler is the
  last event of the run, so no further handler is called in that pass or a later one.
  The tasks before index \<open>i\<close> are completed. The tasks after index \<open>i\<close> have the status
  they had when the failing pass began: the status from before the run (pending for a
  sequence that has not run yet) in the first pass, completed in a later pass. A
  trailing loop task is left as it was.
\<close>

theorem failure_marks_tasks:
  assumes "executeSequence analyzeTaskSequence webviewRef s = (HandlerFailed l i e, s')"
    and "distinct (map taskId (tasks s))"
  shows "i < length (tasksToExecute (tasks s))
    \<and> status (tasks s' ! i) = Failed \<and> error (tasks s' ! i) = Some (message e)
    \<and> logs (executionStatus s') \<noteq> []
    \<and> last (logs (executionStatus s')) = LogTaskFailed (i + 1) (message e)
    \<and> \<not> isExecuting (executionStatus s')
    \<and> (\<exists>pre c. events s' = events s @ pre @ [Dispatched l i (tasks s ! i) c])
    \<and> (\<forall>j < i. status (tasks s' ! j) = Completed)
    \<and> (\<forall>j. i < j \<and> j < length (tasksToExecute (tasks s)) \<longrightarrow>
          status (tasks s' ! j) = (if l = 0 then status (tasks s ! j) else Completed))
    \<and> (\<forall>j. length (tasksToExecute (tasks s)) \<le> j \<and> j < length (tasks s) \<longrightarrow>
          tasks s' ! j = tasks s ! j)"
  using assms(1)
proof (cases rule: executeSequenceE)
  case notStarted
  then show ?thesis by simp
next
  case (finished webview s1)
  then show ?thesis by simp
next
  case (stopped webview)
  define sB where "sB = beginRun analyzeTaskSequence s"
  have sB: "tasks sB = tasks s" "events sB = events s"
    by (simp_all add: sB_def)
  have run: "runLoops webview (executionStatus s) (hasLoop (tasks s)) (loopCountOf (tasks s))
      (tasksToExecute (tasks s)) 0 sB = (HandlerFailed l i e, s')"
    unfolding sB_def using stopped(3) .
  have pre: "distinct (map taskId (tasks sB))"
    "length (tasksToExecute (tasks s)) \<le> length (tasks sB)"
    "\<forall>m < length (tasksToExecute (tasks s)).
        taskId (tasksToExecute (tasks s) ! m) = taskId (tasks sB ! m)"
    using assms(2) sB tasksToExecute_length [of "tasks s"]
    by (simp_all add: tasksToExecute_nth)
  from runLoops_tasks [OF run pre] sB have t:
    "i < length (tasksToExecute (tasks s))"
    "status (tasks s' ! i) = Failed" "error (tasks s' ! i) = Some (message e)"
    "\<forall>j < i. status (tasks s' ! j) = Completed"
    "\<forall>j. i < j \<and> j < length (tasksToExecute (tasks s)) \<longrightarrow>
          status (tasks s' ! j) = (if l = 0 then status (tasks s ! j) else Completed)"
    "\<forall>j. length (tasksToExecute (tasks s)) \<le> j \<and> j < length (tasks s) \<longrightarrow>
          tasks s' ! j = tasks s ! j"
    by simp_all
  from runLoops_status [OF run] have st:
    "logs (executionStatus s') \<noteq> []"
    "last (logs (executionStatus s')) = LogTaskFailed (i + 1) (message e)"
    "\<not> isExecuting (executionStatus s')"
    by simp_all
  from runLoops_runTrace [OF run] obtain evs where
    evs: "events s' = events sB @ evs"
      "runTrace (loopCountOf (tasks s)) (tasksToExecute (tasks s)) 0 (HandlerFailed l i e) evs"
    by auto
  from runTrace_failed [OF evs(2) refl] obtain pre' c where
    "evs = pre' @ [Dispatched l i (tasksToExecute (tasks s) ! i) c]"
    by auto
  with evs(1) sB(2) t(1) have
    "\<exists>pre c. events s' = events s @ pre @ [Dispatched l i (tasks s ! i) c]"
    by (auto simp add: tasksToExecute_nth)
  with t st show ?thesis by simp
qed

theorem failure_marks_tasks_witness:
  "executeSequence noWarnings (Some clickAwayView) (freshState clickNextTasks [])
     = (HandlerFailed 1 0 (ScriptError ''Element not found''),
        snd (executeSequence noWarnings (Some clickAwayView) (freshState clickNextTasks [])))
   \<and> distinct (map taskId (tasks (freshState clickNextTasks [])))
   \<and> status (tasks (snd (executeSequence noWarnings (Some clickAwayView)
         (freshState clickNextTasks []))) ! 0) = Failed
   \<and> error (tasks (snd (executeSequence noWarnings (Some clickAwayView)
         (freshState clickNextTasks []))) ! 0) = Some ''Element not found''
   \<and> status (tasks (snd (executeSequence noWarnings (Some clickAwayView)
         (freshState clickNextTasks []))) ! 1) = Completed
   \<and> status (tasks (snd (executeSequence noWarnings (Some clickAwayView)
         (freshState clickNextTasks []))) ! 2) = Pending
   \<and> \<not> isExecuting (executionStatus (snd (executeSequence noWarnings (Some clickAwayView)
         (freshState clickNextTasks []))))"
proof -
  have "fst (executeSequence noWarnings (Some clickAwayView) (freshState clickNextTasks []))
      = HandlerFailed 1 0 (ScriptError ''Element not found'')"
    by code_simp
  then have run: "executeSequence noWarnings (Some clickAwayView) (freshState clickNextTasks [])
     = (HandlerFailed 1 0 (ScriptError ''Element not found''),
        snd (executeSequence noWarnings (Some clickAwayView) (freshState clickNextTasks [])))"
    by (simp add: prod_eq_iff)
  have d: "distinct (map taskId (tasks (freshState clickNextTasks [])))"
    by code_simp
  have h: "length (tasksToExecute (tasks (freshState clickNextTasks []))) = 2"
    "length (tasks (freshState clickNextTasks [])) = 3"
    "status (tasks (freshState clickNextTasks []) ! 2) = Pending"
    by code_simp+
  from failure_marks_tasks [OF run d] h run d show ?thesis
    by simp
qed

text \<open>
  C2 as stated fails in a later pass: when the click fails in the second pass, the task
  after it is still completed from the first pass, although every task was pending when
  the run began.
\<close>

theorem later_tasks_completed_counterexample:
  "map status (tasks (freshState clickNextTasks [])) = [Pending, Pending, Pending]
   \<and> fst (executeSequence noWarnings (Some clickAwayView) (freshState clickNextTasks []))
      = HandlerFailed 1 0 (ScriptError ''Element not found'')
   \<and> status (tasks (snd (executeSequence noWarnings (Some clickAwayView)
         (freshState clickNextTasks []))) ! 1) = Completed
   \<and> status (tasks (snd (executeSequence noWarnings (Some clickAwayView)
         (freshState clickNextTasks []))) ! 1) \<noteq> Pending"
  by code_simp


end
